theory Spec2Isabelle
  imports Complex_Main "HOL-Library.AList" "HOL-Library.Sublist" "HOL-Library.Char_ord"
    "HOL-Library.List_Lexorder" "HOL-Library.Product_Lexorder" "HOL-Library.Multiset"
begin

section \<open>The inspector's tables, fields and searcher (bluepea, pylib/inspector.py)\<close>

text \<open>
  The module is Python source that is compiled for the browser. Its rows are the objects
  parsed from the server's JSON: one namespace of properties that the code reads both
  as \<^verbatim>\<open>obj[key]\<close> and as \<^verbatim>\<open>obj.key\<close>, extends by assignment
  (\<^verbatim>\<open>datum._uid = self.total\<close>, \<^verbatim>\<open>obj._selected = True\<close>) and
  shrinks with \<^verbatim>\<open>del\<close>. A property that is absent reads as the absent value,
  which \<^verbatim>\<open>== None\<close> accepts (the view tests \<^verbatim>\<open>obj._selected\<close> on rows
  that never had it). Operators and builtins (\<^verbatim>\<open>list.sort\<close>, \<^verbatim>\<open>str\<close>,
  \<^verbatim>\<open>in\<close>, \<^verbatim>\<open>lower\<close>, \<^verbatim>\<open>startswith\<close>, slices, \<^verbatim>\<open>/\<close>) have
  their Python meaning. A number is an integer or a finite float, a float given by its
  value. A string is the sequence of the bytes of its UTF-8 text: substrings, prefixes and
  the order by code point of two texts are those of their byte sequences.
\<close>

subsection \<open>Values, row objects and the store\<close>

datatype jv =
    JNull
  | JBool bool
  | JNum int
  | JFloat rat
  | JStr string
  | JList "jv list"
  | JObj "(string \<times> jv) list"

text \<open>A row object: its properties in insertion order, one binding per key.\<close>

type_synonym obj = "(string \<times> jv) list"

text \<open>
  Rows are shared: \<^verbatim>\<open>data\<close>, \<^verbatim>\<open>_shownData\<close> and \<^verbatim>\<open>_selected\<close> hold
  references to the same objects, and selecting a row mutates it in place. The store maps
  a reference to the object it denotes.
\<close>

type_synonym addr = nat
type_synonym heap = "addr \<Rightarrow> obj"

datatype error = TypeError | AttributeError | RangeError

definition getprop :: "obj \<Rightarrow> string \<Rightarrow> jv" where
  "getprop ob k = (case map_of ob k of None \<Rightarrow> JNull | Some v \<Rightarrow> v)"

definition setprop :: "obj \<Rightarrow> string \<Rightarrow> jv \<Rightarrow> obj" where
  "setprop ob k v = AList.update k v ob"

definition delprop :: "obj \<Rightarrow> string \<Rightarrow> obj" where
  "delprop ob k = AList.delete k ob"


definition startswith :: "string \<Rightarrow> string \<Rightarrow> bool" where
  "startswith s p = prefix p s"

definition endswith :: "string \<Rightarrow> string \<Rightarrow> bool" where
  "endswith s p = suffix p s"

text \<open>
  \<^verbatim>\<open>str.lower\<close>. In a text of ASCII characters it replaces the letters A to Z by
  a to z and keeps every other character. What it makes of a text with other characters
  is given by the case mapping of Unicode, the parameter \<open>ul\<close> here.
\<close>

definition lower_char :: "char \<Rightarrow> char" where
  "lower_char c =
     (if CHR ''A'' \<le> c \<and> c \<le> CHR ''Z'' then char_of (of_char c + (32 :: nat)) else c)"

definition is_ascii :: "char \<Rightarrow> bool" where
  "is_ascii c = (of_char c < (128 :: nat))"

definition lower :: "(string \<Rightarrow> string) \<Rightarrow> string \<Rightarrow> string" where
  "lower ul s = (if list_all is_ascii s then map lower_char s else ul s)"

text \<open>Sequencing of calls that may raise: the first exception ends the run.\<close>

definition andThen :: "error + 'a \<Rightarrow> ('a \<Rightarrow> error + 'b) \<Rightarrow> error + 'b" where
  "andThen r f = (case r of Inl e \<Rightarrow> Inl e | Inr x \<Rightarrow> f x)"

subsection \<open>Field\<close>

datatype fkind =
    KField | KFillField | KDateField | KEpochField
  | KIDField | KDIDField | KHIDField | KOIDField | KMIDField

text \<open>
  A Field instance. Field defines no \<^verbatim>\<open>__eq__\<close>, so \<^verbatim>\<open>self.sortField == field\<close>
  compares identities; \<open>fid\<close> is the identity of the instance.
\<close>

record field =
  fid :: nat
  kind :: fkind
  title :: string
  mlength :: nat
  name :: string

text \<open>The class attributes \<^verbatim>\<open>Title\<close>, \<^verbatim>\<open>Length\<close> and \<^verbatim>\<open>Header\<close>, as inherited.\<close>

fun Title :: "fkind \<Rightarrow> string option" where
  "Title KField = None"
| "Title KFillField = None"
| "Title KDateField = Some ''Date''"
| "Title KEpochField = Some ''Date''"
| "Title KIDField = Some ''UID''"
| "Title KDIDField = Some ''DID''"
| "Title KHIDField = Some ''HID''"
| "Title KOIDField = Some ''UID''"
| "Title KMIDField = Some ''UID''"

fun Length :: "fkind \<Rightarrow> nat" where
  "Length KField = 4"
| "Length KFillField = 100"
| "Length KDateField = 12"
| "Length KEpochField = 12"
| "Length KIDField = 4"
| "Length KDIDField = 4"
| "Length KHIDField = 4"
| "Length KOIDField = 4"
| "Length KMIDField = 4"

fun Header :: "fkind \<Rightarrow> string" where
  "Header KDIDField = ''did:igo:''"
| "Header KHIDField = ''hid:''"
| "Header KOIDField = ''o_''"
| "Header KMIDField = ''m_''"
| "Header k = []"

text \<open>
  \<^verbatim>\<open>Field.__init__(title=None, length=None)\<close> of the class \<open>k\<close>, for the
  instance with identity \<open>i\<close>. With no title at all, \<^verbatim>\<open>self.title.lower()\<close> is
  called on \<^verbatim>\<open>None\<close>.
\<close>

definition Field_init ::
  "(string \<Rightarrow> string) \<Rightarrow> nat \<Rightarrow> fkind \<Rightarrow> string option \<Rightarrow> nat option \<Rightarrow> error + field" where
  "Field_init ul i k ttl len =
     (case (case ttl of None \<Rightarrow> Title k | Some x \<Rightarrow> Some x) of
        None \<Rightarrow> Inl AttributeError
      | Some x \<Rightarrow>
          Inr \<lparr> fid = i, kind = k, title = x,
                mlength = (case len of None \<Rightarrow> Length k | Some n \<Rightarrow> n),
                name = lower ul x \<rparr>)"

text \<open>
  \<^verbatim>\<open>str(data)\<close>: a string is itself; the text of any other value is the language's
  and a parameter here.
\<close>

definition py_str :: "(jv \<Rightarrow> string) \<Rightarrow> jv \<Rightarrow> string" where
  "py_str repr v = (case v of JStr x \<Rightarrow> x | _ \<Rightarrow> repr v)"

text \<open>\<^verbatim>\<open>Field.format\<close>.\<close>

definition Field_format :: "(jv \<Rightarrow> string) \<Rightarrow> jv \<Rightarrow> error + string" where
  "Field_format repr data = Inr (py_str repr data)"

text \<open>
  \<^verbatim>\<open>IDField.format\<close>, with the \<^verbatim>\<open>Header\<close> of the class: only a string has
  \<^verbatim>\<open>startswith\<close>.
\<close>

definition IDField_format :: "(jv \<Rightarrow> string) \<Rightarrow> string \<Rightarrow> jv \<Rightarrow> error + string" where
  "IDField_format repr hdr data =
     (case data of
        JStr x \<Rightarrow> Field_format repr (JStr (if startswith x hdr then drop (length hdr) x else x))
      | _ \<Rightarrow> Inl AttributeError)"

text \<open>
  \<^verbatim>\<open>EpochField.format\<close>: \<^verbatim>\<open>data / 1000\<close> is defined on numbers (a boolean is
  the number 0 or 1) and raises TypeError on anything else. \<open>toISO n\<close> is
  \<^verbatim>\<open>__new__(Date(n / 1000)).toISOString()\<close>, the browser's date text, a parameter
  here; it raises RangeError for a time outside the range of dates.
\<close>

definition EpochField_format ::
  "(jv \<Rightarrow> string) \<Rightarrow> (rat \<Rightarrow> error + string) \<Rightarrow> jv \<Rightarrow> error + string" where
  "EpochField_format repr toISO data =
     (case data of
        JNum n \<Rightarrow> andThen (toISO (of_int n)) (\<lambda>x. Field_format repr (JStr x))
      | JFloat r \<Rightarrow> andThen (toISO r) (\<lambda>x. Field_format repr (JStr x))
      | JBool b \<Rightarrow> andThen (toISO (if b then 1 else 0)) (\<lambda>x. Field_format repr (JStr x))
      | _ \<Rightarrow> Inl TypeError)"

text \<open>The \<^verbatim>\<open>format\<close> method of each class.\<close>

fun format :: "(jv \<Rightarrow> string) \<Rightarrow> (rat \<Rightarrow> error + string) \<Rightarrow> fkind \<Rightarrow> jv \<Rightarrow> error + string" where
  "format repr toISO KField data = Field_format repr data"
| "format repr toISO KFillField data = Field_format repr data"
| "format repr toISO KDateField data = Field_format repr data"
| "format repr toISO KEpochField data = EpochField_format repr toISO data"
| "format repr toISO k data = IDField_format repr (Header k) data"

text \<open>\<^verbatim>\<open>Field.shorten\<close>.\<close>

definition shorten :: "string \<Rightarrow> string" where
  "shorten x = x"

text \<open>
  The cell \<^verbatim>\<open>m("td", {"title": formatted}, self.shorten(formatted))\<close>;
  \<^verbatim>\<open>FillField.view\<close> adds the class \<^verbatim>\<open>fill-space\<close>.
\<close>

record cell =
  attr_title :: string
  cell_text :: string
  attr_class :: "string option"

text \<open>\<^verbatim>\<open>Field.view\<close> and its override in \<^verbatim>\<open>FillField\<close>.\<close>

definition view :: "(jv \<Rightarrow> string) \<Rightarrow> (rat \<Rightarrow> error + string) \<Rightarrow> field \<Rightarrow> jv \<Rightarrow> error + cell" where
  "view repr toISO f data =
     (case format repr toISO (kind f) (if data = JNull then JStr [] else data) of
        Inl e \<Rightarrow> Inl e
      | Inr formatted \<Rightarrow>
          Inr \<lparr> attr_title = formatted, cell_text = shorten formatted,
                attr_class = (if kind f = KFillField then Some ''fill-space'' else None) \<rparr>)"

subsection \<open>Table\<close>

text \<open>
  \<open>'f\<close> is the type of the callables installed as filter, compared as
  \<^verbatim>\<open>func != self.filter\<close> compares them; what a callable answers for a row is
  given by an evaluator \<open>app\<close> passed to the operations that call the filter, because
  the one filter the module installs, the searcher's bound \<^verbatim>\<open>search\<close>, answers
  from the searcher's state at the time of the call. \<open>getField\<close> is the
  \<^verbatim>\<open>_getField\<close> method of the table's class.
\<close>

record 'f table =
  max_size :: nat
  fields_t :: "field list"
  data :: "addr list"
  shownData :: "addr list"
  selected :: "addr option"
  detailSelected :: string
  filter_t :: "'f option"
  sortField :: "field option"
  reversed :: bool
  total_t :: nat
  shown :: nat
  getField :: "obj \<Rightarrow> field \<Rightarrow> jv"

text \<open>\<^verbatim>\<open>Table._getField\<close>: \<^verbatim>\<open>obj[field.name]\<close>.\<close>

definition Table_getField :: "obj \<Rightarrow> field \<Rightarrow> jv" where
  "Table_getField ob f = getprop ob (name f)"

text \<open>\<^verbatim>\<open>Table.__init__\<close>.\<close>

definition Table_init :: "field list \<Rightarrow> 'f table" where
  "Table_init fs =
     \<lparr> max_size = 1000, fields_t = fs, data = [], shownData = [], selected = None,
       detailSelected = [], filter_t = None, sortField = None, reversed = False,
       total_t = 0, shown = 0, getField = Table_getField \<rparr>"

text \<open>
  Modelled from the spec: \<^verbatim>\<open>server.clearArray\<close> (pylib/server.py is not among the
  sources); "if clear, discards all existing rows first": it empties the array in place.
\<close>

definition clearArray :: "'a list \<Rightarrow> 'a list" where
  "clearArray xs = []"

text \<open>\<^verbatim>\<open>Table.clear\<close>.\<close>

definition clear :: "heap \<times> 'f table \<Rightarrow> heap \<times> 'f table" where
  "clear s = (case s of (h, t) \<Rightarrow> (h, t\<lparr> total_t := 0, data := clearArray (data t) \<rparr>))"

text \<open>
  Whether the loop of \<^verbatim>\<open>_processData\<close> accepts a row: it skips the row when a
  filter is set and the filter rejects it.
\<close>

definition accepts :: "('f \<Rightarrow> obj \<Rightarrow> bool) \<Rightarrow> heap \<Rightarrow> 'f table \<Rightarrow> addr \<Rightarrow> bool" where
  "accepts app h t a = (case filter_t t of None \<Rightarrow> True | Some f \<Rightarrow> app f (h a))"

text \<open>
  The loop of \<^verbatim>\<open>_processData\<close> over the rest of \<^verbatim>\<open>data\<close>; the state is
  (\<^verbatim>\<open>_shownData\<close>, \<^verbatim>\<open>shown\<close>). First the \<^verbatim>\<open>break\<close>, then the
  \<^verbatim>\<open>continue\<close>, then the append.
\<close>

fun processLoop :: "(addr \<Rightarrow> bool) \<Rightarrow> nat \<Rightarrow> addr list \<Rightarrow> addr list \<times> nat \<Rightarrow> addr list \<times> nat" where
  "processLoop acc mx [] (sd, n) = (sd, n)"
| "processLoop acc mx (x # xs) (sd, n) =
     (if n \<ge> mx then (sd, n)
      else if \<not> acc x then processLoop acc mx xs (sd, n)
      else processLoop acc mx xs (sd @ [x], n + 1))"

text \<open>
  \<^verbatim>\<open>_processData\<close> up to, and not including, its last statement
  \<^verbatim>\<open>self._sortData()\<close>.
\<close>

definition deriveShown :: "('f \<Rightarrow> obj \<Rightarrow> bool) \<Rightarrow> heap \<times> 'f table \<Rightarrow> heap \<times> 'f table" where
  "deriveShown app s =
     (case s of (h, t) \<Rightarrow>
        (case processLoop (accepts app h t) (max_size t) (data t) (clearArray (shownData t), 0) of
           (sd, n) \<Rightarrow> (h, t\<lparr> shownData := sd, shown := n \<rparr>)))"

subsection \<open>Sorting\<close>

text \<open>
  \<^verbatim>\<open>list.sort(key=..., reverse=...)\<close> by its contract: the sort is stable, and with
  \<^verbatim>\<open>reverse=True\<close> the elements are sorted as if each comparison were reversed,
  which keeps rows with equal keys in their original order.
\<close>

definition stable_sort :: "('a \<Rightarrow> 'k::linorder) \<Rightarrow> bool \<Rightarrow> 'a list \<Rightarrow> 'a list" where
  "stable_sort key rv xs = (if rv then rev (sort_key key (rev xs)) else sort_key key xs)"

text \<open>
  The canonical text of a value, a sequence of tokens. Two values have the same text
  exactly when \<^verbatim>\<open>==\<close> holds for them: numbers are compared by value
  (\<^verbatim>\<open>True\<close>, \<^verbatim>\<open>1\<close> and \<^verbatim>\<open>1.0\<close> are equal), strings and
  sequences element by element, and mappings by their bindings whatever the order of
  their keys. The closing token of a sequence is less than every other token, so that a
  sequence precedes the sequences it is a proper prefix of.
\<close>

type_synonym token = "nat \<times> rat \<times> string"

fun enc :: "jv \<Rightarrow> token list"
  and enc_list :: "jv list \<Rightarrow> token list"
  and enc_items :: "(string \<times> jv) list \<Rightarrow> (string \<times> token list) list" where
  "enc JNull = [(4, 0, [])]"
| "enc (JBool b) = [(1, if b then 1 else 0, [])]"
| "enc (JNum n) = [(1, of_int n, [])]"
| "enc (JFloat r) = [(1, r, [])]"
| "enc (JStr s) = [(2, 0, s)]"
| "enc (JList vs) = (3, 0, []) # enc_list vs @ [(0, 0, [])]"
| "enc (JObj kvs) =
     (5, 0, []) # concat (map (\<lambda>ke. (6, 0, fst ke) # snd ke) (sort_key fst (enc_items kvs)))
       @ [(0, 0, [])]"
| "enc_list [] = []"
| "enc_list (v # vs) = enc v @ enc_list vs"
| "enc_items [] = []"
| "enc_items (kv # kvs) = (fst kv, enc (snd kv)) # enc_items kvs"

text \<open>\<^verbatim>\<open>a == b\<close> on values.\<close>

definition py_eq :: "jv \<Rightarrow> jv \<Rightarrow> bool" where
  "py_eq a b = (enc a = enc b)"

text \<open>The numbers (a boolean is the number 0 or 1) and the strings.\<close>

fun is_num :: "jv \<Rightarrow> bool" where
  "is_num (JNum n) = True"
| "is_num (JFloat r) = True"
| "is_num (JBool b) = True"
| "is_num v = False"

fun num_of :: "jv \<Rightarrow> rat" where
  "num_of (JNum n) = of_int n"
| "num_of (JFloat r) = r"
| "num_of (JBool b) = (if b then 1 else 0)"
| "num_of v = 0"

fun is_str :: "jv \<Rightarrow> bool" where
  "is_str (JStr s) = True"
| "is_str v = False"

fun str_of :: "jv \<Rightarrow> string" where
  "str_of (JStr s) = s"
| "str_of v = []"

text \<open>
  Whether \<^verbatim>\<open>a < b\<close> returns or raises TypeError. It returns for two numbers and
  for two strings. Two sequences are compared at the first position where their
  elements are not equal, or by their lengths when there is none. It raises for every
  other pair: with \<^verbatim>\<open>None\<close>, with a mapping, and between values of two kinds.
\<close>

fun comparable :: "jv \<Rightarrow> jv \<Rightarrow> bool"
  and comparable_list :: "jv list \<Rightarrow> jv list \<Rightarrow> bool" where
  "comparable (JList xs) (JList ys) = comparable_list xs ys"
| "comparable a b = ((is_num a \<and> is_num b) \<or> (is_str a \<and> is_str b))"
| "comparable_list (x # xs) (y # ys) =
     (if py_eq x y then comparable_list xs ys else comparable x y)"
| "comparable_list [] ys = True"
| "comparable_list (x # xs) [] = True"

fun pairwise_comparable :: "jv list \<Rightarrow> bool" where
  "pairwise_comparable [] = True"
| "pairwise_comparable (k # ks) = (list_all (comparable k) ks \<and> pairwise_comparable ks)"

text \<open>
  \<^verbatim>\<open>list.sort\<close> on the keys. A list of at most one row is sorted without a
  comparison. With two or more rows the sort raises the TypeError of \<^verbatim>\<open><\<close>
  when two of the keys cannot be compared; otherwise it returns the rows in the order of
  their keys, which is the order of the canonical texts.
\<close>

definition py_sort :: "('a \<Rightarrow> jv) \<Rightarrow> bool \<Rightarrow> 'a list \<Rightarrow> error + 'a list" where
  "py_sort key rv xs =
     (if length xs \<le> 1 then Inr xs
      else if pairwise_comparable (map key xs) then Inr (stable_sort (\<lambda>x. enc (key x)) rv xs)
      else Inl TypeError)"

text \<open>The key of a row under the table's sort field \<open>f\<close>.\<close>

definition sortKey :: "heap \<Rightarrow> 'f table \<Rightarrow> field \<Rightarrow> addr \<Rightarrow> jv" where
  "sortKey h t f a = getField t (h a) f"

text \<open>\<^verbatim>\<open>Table._sortData\<close>.\<close>

definition sortData :: "heap \<times> 'f table \<Rightarrow> error + heap \<times> 'f table" where
  "sortData s =
     (case s of (h, t) \<Rightarrow>
        (case sortField t of
           None \<Rightarrow> Inr (h, t)
         | Some f \<Rightarrow>
             (case py_sort (sortKey h t f) (reversed t) (shownData t) of
                Inl e \<Rightarrow> Inl e
              | Inr xs \<Rightarrow> Inr (h, t\<lparr> shownData := xs \<rparr>))))"

text \<open>\<^verbatim>\<open>Table._processData\<close>.\<close>

definition processData :: "('f \<Rightarrow> obj \<Rightarrow> bool) \<Rightarrow> heap \<times> 'f table \<Rightarrow> error + heap \<times> 'f table" where
  "processData app s = sortData (deriveShown app s)"

text \<open>
  The body of the loop of \<^verbatim>\<open>_setData\<close>: the row gets the current total as its
  \<^verbatim>\<open>_uid\<close>, is appended to \<^verbatim>\<open>data\<close>, and the total grows by one.
\<close>

definition setDataStep :: "addr \<Rightarrow> heap \<times> 'f table \<Rightarrow> heap \<times> 'f table" where
  "setDataStep d s =
     (case s of (h, t) \<Rightarrow>
        (h(d := setprop (h d) ''_uid'' (JNum (int (total_t t)))),
         t\<lparr> data := data t @ [d], total_t := total_t t + 1 \<rparr>))"

text \<open>
  The loop of \<^verbatim>\<open>_setData\<close> over the incoming rows. The incoming list is not the
  table's own array.
\<close>

fun setDataLoop :: "addr list \<Rightarrow> heap \<times> 'f table \<Rightarrow> heap \<times> 'f table" where
  "setDataLoop [] s = s"
| "setDataLoop (d # ds) s = setDataLoop ds (setDataStep d s)"

text \<open>\<^verbatim>\<open>Table._setData(data, clear=True)\<close>.\<close>

definition setData ::
  "('f \<Rightarrow> obj \<Rightarrow> bool) \<Rightarrow> addr list \<Rightarrow> bool \<Rightarrow> heap \<times> 'f table \<Rightarrow> error + heap \<times> 'f table" where
  "setData app rows clr s = processData app (setDataLoop rows (if clr then clear s else s))"

text \<open>A sequence of \<^verbatim>\<open>_setData\<close> calls with \<^verbatim>\<open>clear=True\<close>, one per batch.\<close>

definition setDataAll ::
  "('f \<Rightarrow> obj \<Rightarrow> bool) \<Rightarrow> addr list list \<Rightarrow> heap \<times> 'f table \<Rightarrow> error + heap \<times> 'f table" where
  "setDataAll app batches s = foldl (\<lambda>r b. andThen r (setData app b True)) (Inr s) batches"

text \<open>
  \<^verbatim>\<open>Table.refresh\<close> of the base class: \<^verbatim>\<open>self._setData([])\<close>; the promise it
  builds is not part of the table's state.
\<close>

definition refresh :: "('f \<Rightarrow> obj \<Rightarrow> bool) \<Rightarrow> heap \<times> 'f table \<Rightarrow> error + heap \<times> 'f table" where
  "refresh app s = setData app [] True s"

text \<open>
  \<^verbatim>\<open>refresh\<close> as the classes of the tables override it. In
  \<^verbatim>\<open>AnonMsgsTable\<close>, \<^verbatim>\<open>IssuantsTable\<close>, \<^verbatim>\<open>OffersTable\<close> and
  \<^verbatim>\<open>MessagesTable\<close> it is \<^verbatim>\<open>self.clear()\<close> and the start of a fetch,
  whose promise it returns; \<^verbatim>\<open>EntitiesTable.refresh\<close> starts two fetches after
  its \<^verbatim>\<open>self.clear()\<close>. The table is the same before and after the start of a
  fetch, so that the call, up to its return, does to the table what
  \<^verbatim>\<open>clear\<close> does.
\<close>

definition subclass_refresh :: "heap \<times> 'f table \<Rightarrow> heap \<times> 'f table" where
  "subclass_refresh s = clear s"

text \<open>
  The callback that the four classes register on the promise of the fetch, run when the
  fetch has completed with the rows \<open>rows\<close>: \<^verbatim>\<open>self._setData(rows)\<close>. The
  callbacks of \<^verbatim>\<open>EntitiesTable\<close> are
  \<^verbatim>\<open>self._setData(rows, clear=False)\<close>.
\<close>

definition subclass_refresh_then ::
  "('f \<Rightarrow> obj \<Rightarrow> bool) \<Rightarrow> addr list \<Rightarrow> heap \<times> 'f table \<Rightarrow> error + heap \<times> 'f table" where
  "subclass_refresh_then app rows s = setData app rows True s"

text \<open>\<^verbatim>\<open>Table.setFilter\<close>.\<close>

definition setFilter ::
  "('f \<Rightarrow> obj \<Rightarrow> bool) \<Rightarrow> 'f option \<Rightarrow> heap \<times> 'f table \<Rightarrow> error + heap \<times> 'f table" where
  "setFilter app func s =
     (case s of (h, t) \<Rightarrow>
        if func \<noteq> filter_t t then processData app (h, t\<lparr> filter_t := func \<rparr>) else Inr (h, t))"

text \<open>\<^verbatim>\<open>Table.setSort\<close>.\<close>

definition setSort :: "field \<Rightarrow> heap \<times> 'f table \<Rightarrow> error + heap \<times> 'f table" where
  "setSort f s =
     (case s of (h, t) \<Rightarrow>
        sortData
          (h, if sortField t = Some f then t\<lparr> reversed := \<not> reversed t \<rparr>
              else t\<lparr> reversed := False, sortField := Some f \<rparr>))"

subsection \<open>Selection\<close>

text \<open>
  The replacer of \<^verbatim>\<open>_stringify\<close> returns nothing for a key that starts with an
  underscore, so \<^verbatim>\<open>JSON.stringify\<close> omits that property, at every depth; the
  elements of a sequence have their indices as keys and stay.
\<close>

fun strip_private :: "jv \<Rightarrow> jv"
  and strip_items :: "(string \<times> jv) list \<Rightarrow> (string \<times> jv) list"
  and strip_list :: "jv list \<Rightarrow> jv list" where
  "strip_private (JObj kvs) = JObj (strip_items kvs)"
| "strip_private (JList vs) = JList (strip_list vs)"
| "strip_private JNull = JNull"
| "strip_private (JBool b) = JBool b"
| "strip_private (JNum n) = JNum n"
| "strip_private (JFloat r) = JFloat r"
| "strip_private (JStr s) = JStr s"
| "strip_items [] = []"
| "strip_items (kv # kvs) =
     (if startswith (fst kv) ''_'' then strip_items kvs
      else (fst kv, strip_private (snd kv)) # strip_items kvs)"
| "strip_list [] = []"
| "strip_list (v # vs) = strip_private v # strip_list vs"

text \<open>
  \<^verbatim>\<open>Table._stringify\<close>. \<open>pretty\<close> is \<^verbatim>\<open>JSON.stringify(value, null, 2)\<close>, the
  browser's serializer with an indent of two, a parameter here.
\<close>

definition stringify :: "(jv \<Rightarrow> string) \<Rightarrow> obj \<Rightarrow> string" where
  "stringify pretty ob = pretty (strip_private (JObj ob))"

text \<open>The last three statements of \<^verbatim>\<open>_selectRow\<close>: select the new object.\<close>

definition selectNew :: "(jv \<Rightarrow> string) \<Rightarrow> addr \<Rightarrow> heap \<times> 'f table \<Rightarrow> heap \<times> 'f table" where
  "selectNew pretty ob s =
     (case s of (h, t) \<Rightarrow>
        (let h' = h(ob := setprop (h ob) ''_selected'' (JBool True))
         in (h', t\<lparr> selected := Some ob, detailSelected := stringify pretty (h' ob) \<rparr>)))"

text \<open>\<^verbatim>\<open>Table._selectRow(event, obj)\<close>; the event is not used.\<close>

definition selectRow :: "(jv \<Rightarrow> string) \<Rightarrow> addr \<Rightarrow> heap \<times> 'f table \<Rightarrow> heap \<times> 'f table" where
  "selectRow pretty ob s =
     (case s of (h, t) \<Rightarrow>
        (case selected t of
           None \<Rightarrow> selectNew pretty ob (h, t)
         | Some sel \<Rightarrow>
             (let h1 = h(sel := delprop (h sel) ''_selected'')
              in if py_eq (getprop (h1 sel) ''_uid'') (getprop (h1 ob) ''_uid'')
                 then (h1, t\<lparr> selected := None, detailSelected := [] \<rparr>)
                 else selectNew pretty ob (h1, t))))"

subsection \<open>The composite entities table\<close>

text \<open>
  \<^verbatim>\<open>EntitiesTable.refresh\<close>: \<^verbatim>\<open>self.clear()\<close>, then the two
  \<^verbatim>\<open>then\<close> callbacks, each \<^verbatim>\<open>self._setData(..., clear=False)\<close>, in the order
  in which the two fetches complete: \<open>first\<close> is the batch that arrives first. The
  result is the state after the first callback and the state after the second.
\<close>

definition EntitiesTable_refresh ::
  "('f \<Rightarrow> obj \<Rightarrow> bool) \<Rightarrow> addr list \<Rightarrow> addr list \<Rightarrow> heap \<times> 'f table
     \<Rightarrow> error + (heap \<times> 'f table) \<times> (heap \<times> 'f table)" where
  "EntitiesTable_refresh app first second s =
     (case setData app first False (clear s) of
        Inl e \<Rightarrow> Inl e
      | Inr s1 \<Rightarrow>
          (case setData app second False s1 of
             Inl e \<Rightarrow> Inl e
           | Inr s2 \<Rightarrow> Inr (s1, s2)))"

subsection \<open>Searcher\<close>

text \<open>
  The state of a Searcher after \<^verbatim>\<open>setSearch\<close>. Before the first
  \<^verbatim>\<open>setSearch\<close> the term is \<^verbatim>\<open>None\<close>; \<^verbatim>\<open>searchAll\<close> and
  \<^verbatim>\<open>searchCurrent\<close> set the term before they hand out \<^verbatim>\<open>search\<close>.
\<close>

record searcher =
  searchTerm :: string
  caseSensitive :: bool

definition dq :: char where
  "dq = CHR 0x22"

text \<open>
  \<^verbatim>\<open>Searcher.setSearch(term)\<close>; the argument is \<open>None\<close> for a null or undefined
  term. The slice \<^verbatim>\<open>[1:-1]\<close> drops the first and the last character.
\<close>

definition setSearch :: "(string \<Rightarrow> string) \<Rightarrow> string option \<Rightarrow> searcher" where
  "setSearch ul term =
     (let t = (case term of None \<Rightarrow> [] | Some x \<Rightarrow> x)
      in if startswith t [dq] \<and> endswith t [dq]
         then \<lparr> searchTerm = drop 1 (take (length t - 1) t), caseSensitive = True \<rparr>
         else \<lparr> searchTerm = lower ul t, caseSensitive = False \<rparr>)"

text \<open>\<^verbatim>\<open>Searcher._checkPrimitive\<close>; \<^verbatim>\<open>in\<close> on strings is the substring test.\<close>

definition checkPrimitive :: "(string \<Rightarrow> string) \<Rightarrow> searcher \<Rightarrow> jv \<Rightarrow> bool" where
  "checkPrimitive ul sr item =
     (case item of
        JStr x \<Rightarrow> sublist (searchTerm sr) (if \<not> caseSensitive sr then lower ul x else x)
      | _ \<Rightarrow> False)"

text \<open>
  \<^verbatim>\<open>Searcher._checkAny\<close>, \<^verbatim>\<open>Searcher.search\<close> and the loop of
  \<^verbatim>\<open>_checkAny\<close> over a list. \<^verbatim>\<open>search\<close> walks the keys of the object in
  order and reads \<^verbatim>\<open>obj[key]\<close>, the value bound to the key.
\<close>

fun checkAny :: "(string \<Rightarrow> string) \<Rightarrow> searcher \<Rightarrow> jv \<Rightarrow> bool"
  and search :: "(string \<Rightarrow> string) \<Rightarrow> searcher \<Rightarrow> (string \<times> jv) list \<Rightarrow> bool"
  and checkList :: "(string \<Rightarrow> string) \<Rightarrow> searcher \<Rightarrow> jv list \<Rightarrow> bool" where
  "checkAny ul sr (JObj kvs) = search ul sr kvs"
| "checkAny ul sr (JList vs) = checkList ul sr vs"
| "checkAny ul sr JNull = checkPrimitive ul sr JNull"
| "checkAny ul sr (JBool b) = checkPrimitive ul sr (JBool b)"
| "checkAny ul sr (JNum n) = checkPrimitive ul sr (JNum n)"
| "checkAny ul sr (JFloat r) = checkPrimitive ul sr (JFloat r)"
| "checkAny ul sr (JStr x) = checkPrimitive ul sr (JStr x)"
| "search ul sr [] = False"
| "search ul sr (kv # kvs) =
     (if startswith (fst kv) ''_'' then search ul sr kvs
      else if checkAny ul sr (snd kv) then True
      else search ul sr kvs)"
| "checkList ul sr [] = False"
| "checkList ul sr (v # vs) = (if checkAny ul sr v then True else checkList ul sr vs)"

subsection \<open>Tabs\<close>

text \<open>
  The callables that the module installs as a table's filter: there is one, the bound
  method \<^verbatim>\<open>self.searcher.search\<close>. Two bound methods of the same object and
  function are equal, so \<^verbatim>\<open>setFilter\<close> finds it equal to itself.
\<close>

datatype callable = SearcherSearch

record tab =
  Data_tab :: string
  tab_table :: "callable table"

text \<open>A promise is pending until it is fulfilled or rejected.\<close>

datatype pstate = Pending | Fulfilled | Rejected

text \<open>
  The Tabs object. \<^verbatim>\<open>_refreshPromise\<close> holds a reference to a promise of the
  store of promises, or \<^verbatim>\<open>None\<close>.
\<close>

record tabsState =
  tabs :: "tab list"
  tabs_searcher :: searcher
  refreshing :: bool
  refreshPromise :: "nat option"

text \<open>What the installed filter answers: the searcher's \<^verbatim>\<open>search\<close>, on its current state.\<close>

definition callFilter :: "(string \<Rightarrow> string) \<Rightarrow> searcher \<Rightarrow> callable \<Rightarrow> obj \<Rightarrow> bool" where
  "callFilter ul sr f ob = search ul sr ob"

text \<open>
  The loop \<^verbatim>\<open>for tab in self.tabs: tab.table.setFilter(func)\<close>; an exception ends it.
\<close>

fun setFilterAll ::
  "(string \<Rightarrow> string) \<Rightarrow> searcher \<Rightarrow> callable option \<Rightarrow> heap \<Rightarrow> tab list
     \<Rightarrow> error + heap \<times> tab list" where
  "setFilterAll ul sr func h [] = Inr (h, [])"
| "setFilterAll ul sr func h (tb # tbs) =
     (case setFilter (callFilter ul sr) func (h, tab_table tb) of
        Inl e \<Rightarrow> Inl e
      | Inr s \<Rightarrow>
          (case setFilterAll ul sr func (fst s) tbs of
             Inl e \<Rightarrow> Inl e
           | Inr r \<Rightarrow> Inr (fst r, tb\<lparr> tab_table := snd s \<rparr> # snd r)))"

text \<open>
  \<^verbatim>\<open>Tabs.searchAll\<close>; \<open>text\<close> is the value of the search box (\<open>None\<close> when
  it has none).
\<close>

definition searchAll ::
  "(string \<Rightarrow> string) \<Rightarrow> string option \<Rightarrow> heap \<times> tabsState \<Rightarrow> error + heap \<times> tabsState" where
  "searchAll ul text s =
     (case s of (h, st) \<Rightarrow>
        (let sr = setSearch ul text
         in case setFilterAll ul sr (Some SearcherSearch) h (tabs st) of
              Inl e \<Rightarrow> Inl e
            | Inr r \<Rightarrow> Inr (fst r, st\<lparr> tabs_searcher := sr, tabs := snd r \<rparr>)))"

text \<open>
  The world in which \<^verbatim>\<open>Tabs.refresh\<close> runs: the Tabs object, the store of the
  aggregate promises made by \<^verbatim>\<open>Promise.all\<close> (a reference is an index into it), and
  the number of \<^verbatim>\<open>tab.table.refresh()\<close> calls made so far.
\<close>

record world =
  w_heap :: heap
  w_tabs :: tabsState
  w_promises :: "pstate list"
  w_started :: nat

text \<open>
  \<^verbatim>\<open>refresh\<close> of the tables of the tabs (the subclasses of Table): each begins with
  \<^verbatim>\<open>self.clear()\<close> and returns the promise of its fetch.
\<close>

definition startTableRefresh :: "heap \<Rightarrow> tab \<Rightarrow> tab" where
  "startTableRefresh h tb = tb\<lparr> tab_table := snd (clear (h, tab_table tb)) \<rparr>"

text \<open>
  \<^verbatim>\<open>Tabs.refresh\<close>: the returned reference and the new world. A call while
  \<^verbatim>\<open>_refreshing\<close> is set returns \<^verbatim>\<open>self._refreshPromise\<close>. Otherwise every
  table's refresh is started, \<^verbatim>\<open>Promise.all\<close> makes a new pending promise, and
  \<^verbatim>\<open>done\<close> is registered on it with \<^verbatim>\<open>then\<close> and with \<^verbatim>\<open>catch\<close>.
\<close>

definition Tabs_refresh :: "world \<Rightarrow> nat option \<times> world" where
  "Tabs_refresh w =
     (if refreshing (w_tabs w) then (refreshPromise (w_tabs w), w)
      else
        (let p = length (w_promises w)
         in (Some p,
             w\<lparr> w_tabs := (w_tabs w)\<lparr> refreshing := True,
                                       tabs := map (startTableRefresh (w_heap w)) (tabs (w_tabs w)),
                                       refreshPromise := Some p \<rparr>,
                w_promises := w_promises w @ [Pending],
                w_started := w_started w + length (tabs (w_tabs w)) \<rparr>)))"

text \<open>
  The aggregate promise \<open>p\<close> settles with \<open>outcome\<close>: it is fulfilled when every
  table's refresh is, and rejected when one of them is. A promise settles once. The
  callback \<^verbatim>\<open>done\<close>, registered for both outcomes, then clears \<^verbatim>\<open>_refreshing\<close>.
\<close>

definition settle :: "nat \<Rightarrow> pstate \<Rightarrow> world \<Rightarrow> world" where
  "settle p outcome w =
     (if p < length (w_promises w) \<and> w_promises w ! p = Pending \<and> outcome \<noteq> Pending
      then w\<lparr> w_promises := (w_promises w)[p := outcome],
              w_tabs := (w_tabs w)\<lparr> refreshing := False \<rparr> \<rparr>
      else w)"

text \<open>
  What happens to a Tabs object: a call of \<^verbatim>\<open>refresh\<close>, or the settling of an
  aggregate promise.
\<close>

datatype event = CallRefresh | Settle nat pstate

fun step :: "world \<Rightarrow> event \<Rightarrow> world" where
  "step w CallRefresh = snd (Tabs_refresh w)"
| "step w (Settle p outcome) = settle p outcome w"

text \<open>
  \<^verbatim>\<open>Tabs.__init__\<close>, as far as refreshing goes: the flag is clear, there is no
  promise, and the constructor ends with a first \<^verbatim>\<open>self.refresh()\<close>. The new
  searcher, whose term is \<^verbatim>\<open>None\<close> until the first \<^verbatim>\<open>setSearch\<close>, is
  written with the empty term.
\<close>

definition Tabs_init :: "heap \<Rightarrow> tab list \<Rightarrow> world" where
  "Tabs_init h tbs =
     snd (Tabs_refresh
       \<lparr> w_heap = h,
         w_tabs = \<lparr> tabs = tbs, tabs_searcher = \<lparr> searchTerm = [], caseSensitive = False \<rparr>,
                    refreshing = False, refreshPromise = None \<rparr>,
         w_promises = [], w_started = 0 \<rparr>)"

text \<open>The world after a sequence of events.\<close>

definition run :: "world \<Rightarrow> event list \<Rightarrow> world" where
  "run w evs = foldl step w evs"

subsection \<open>Notions used to state the properties\<close>

text \<open>
  \<^verbatim>\<open>a < b\<close> on two values that can be compared: numbers by value, strings by code
  point, and sequences by the first position where their elements are not equal, the
  shorter sequence first when there is none. \<^verbatim>\<open>a <= b\<close> is
  \<^verbatim>\<open>a < b or a == b\<close>.
\<close>

fun py_lt :: "jv \<Rightarrow> jv \<Rightarrow> bool"
  and py_lt_list :: "jv list \<Rightarrow> jv list \<Rightarrow> bool" where
  "py_lt (JList xs) (JList ys) = py_lt_list xs ys"
| "py_lt a b = ((is_num a \<and> is_num b \<and> num_of a < num_of b)
               \<or> (is_str a \<and> is_str b \<and> str_of a < str_of b))"
| "py_lt_list (x # xs) (y # ys) = (if py_eq x y then py_lt_list xs ys else py_lt x y)"
| "py_lt_list [] (y # ys) = True"
| "py_lt_list xs [] = False"

definition key_le :: "jv \<Rightarrow> jv \<Rightarrow> bool" where
  "key_le a b = (py_lt a b \<or> py_eq a b)"

definition ascending :: "('a \<Rightarrow> jv) \<Rightarrow> 'a list \<Rightarrow> bool" where
  "ascending key xs = sorted_wrt (\<lambda>a b. key_le (key a) (key b)) xs"

definition descending :: "('a \<Rightarrow> jv) \<Rightarrow> 'a list \<Rightarrow> bool" where
  "descending key xs = sorted_wrt (\<lambda>a b. key_le (key b) (key a)) xs"

text \<open>
  The rows whose keys can be compared: at most one row, or rows of which every two have
  keys that \<^verbatim>\<open><\<close> compares.
\<close>

definition sortable :: "('a \<Rightarrow> jv) \<Rightarrow> 'a list \<Rightarrow> bool" where
  "sortable key xs = (length xs \<le> 1 \<or> sorted_wrt (\<lambda>a b. comparable (key a) (key b)) xs)"

text \<open>The rows of a list with a key equal to \<open>k\<close>, in their order in the list.\<close>

definition rowsWithKey :: "('a \<Rightarrow> jv) \<Rightarrow> jv \<Rightarrow> 'a list \<Rightarrow> 'a list" where
  "rowsWithKey key k xs = filter (\<lambda>a. py_eq (key a) k) xs"

text \<open>The shown sequence of a run, or the exception that ended it.\<close>

definition shownOf :: "error + heap \<times> 'f table \<Rightarrow> error + addr list" where
  "shownOf r = (case r of Inl e \<Rightarrow> Inl e | Inr s \<Rightarrow> Inr (shownData (snd s)))"

text \<open>
  The fields and rows of the scenarios: \<^verbatim>\<open>DateField()\<close>, \<^verbatim>\<open>Field("Kind")\<close>,
  the three rows a, b, c with dates 1, 3, 2 at the references 0, 1, 2, and two rows with
  the same date and different kinds.
\<close>

definition dateField :: field where
  "dateField = \<lparr> fid = 1, kind = KDateField, title = ''Date'', mlength = 12, name = ''date'' \<rparr>"

definition kindField :: field where
  "kindField = \<lparr> fid = 2, kind = KField, title = ''Kind'', mlength = 4, name = ''kind'' \<rparr>"

definition rows3 :: heap where
  "rows3 = (\<lambda>_. [])
     (0 := [(''uid'', JStr ''a''), (''date'', JNum 1)],
      1 := [(''uid'', JStr ''b''), (''date'', JNum 3)],
      2 := [(''uid'', JStr ''c''), (''date'', JNum 2)])"

definition tiedRows :: heap where
  "tiedRows = (\<lambda>_. [])
     (0 := [(''uid'', JStr ''a''), (''date'', JNum 1), (''kind'', JNum 2)],
      1 := [(''uid'', JStr ''b''), (''date'', JNum 1), (''kind'', JNum 1)])"

text \<open>The table that holds the three rows, unsorted and unfiltered.\<close>

definition table3 :: "unit table" where
  "table3 = (Table_init [dateField])
     \<lparr> data := [0, 1, 2], shownData := [0, 1, 2], total_t := 3, shown := 3 \<rparr>"

text \<open>Three rows whose date is \<^verbatim>\<open>None\<close>, at the references 0, 1, 2.\<close>

definition undated :: heap where
  "undated = (\<lambda>_. [])
     (0 := [(''uid'', JStr ''a''), (''date'', JNull)],
      1 := [(''uid'', JStr ''b''), (''date'', JNull)],
      2 := [(''uid'', JStr ''c''), (''date'', JNull)])"

text \<open>Five entity rows at the references 0 to 4 (and a row at every other reference).\<close>

definition rows5 :: heap where
  "rows5 = (\<lambda>a. [(''hid'', JNum (int a))])"

text \<open>
  The shown sequence and the shown count after the first callback of the composite
  refresh, or the exception that ended the run.
\<close>

definition shownAfterFirst ::
  "error + (heap \<times> 'f table) \<times> (heap \<times> 'f table) \<Rightarrow> error + addr list \<times> nat" where
  "shownAfterFirst r =
     (case r of Inl e \<Rightarrow> Inl e | Inr p \<Rightarrow> Inr (shownData (snd (fst p)), shown (snd (fst p))))"

text \<open>
  The invariant of the data model: every shown row is a row of \<^verbatim>\<open>data\<close>, the shown
  count is at most \<^verbatim>\<open>max_size\<close>, and the selected row, if any, is a row of
  \<^verbatim>\<open>data\<close>. Rows are compared as references.
\<close>

definition tableInv :: "heap \<times> 'f table \<Rightarrow> bool" where
  "tableInv s =
     (case s of (h, t) \<Rightarrow>
        set (shownData t) \<subseteq> set (data t)
        \<and> shown t \<le> max_size t
        \<and> (case selected t of None \<Rightarrow> True | Some a \<Rightarrow> a \<in> set (data t)))"

text \<open>Whether the invariant holds after a run, or the exception that ended it.\<close>

definition invOf :: "error + heap \<times> 'f table \<Rightarrow> error + bool" where
  "invOf r = (case r of Inl e \<Rightarrow> Inl e | Inr s \<Rightarrow> Inr (tableInv s))"



text \<open>The three rows as \<^verbatim>\<open>_setData\<close> leaves them, with their ids.\<close>

definition rows3u :: heap where
  "rows3u = (\<lambda>_. [])
     (0 := [(''uid'', JStr ''a''), (''date'', JNum 1), (''_uid'', JNum 0)],
      1 := [(''uid'', JStr ''b''), (''date'', JNum 3), (''_uid'', JNum 1)],
      2 := [(''uid'', JStr ''c''), (''date'', JNum 2), (''_uid'', JNum 2)])"






text \<open>A serializer for the scenarios; it prints the keys of a mapping and nothing else.\<close>

fun keysText :: "jv \<Rightarrow> string" where
  "keysText (JObj kvs) = concat (map fst kvs)"
| "keysText v = []"

text \<open>\<^verbatim>\<open>EpochField("Created")\<close>, a field of the table of anonymous messages.\<close>

definition createdField :: field where
  "createdField =
     \<lparr> fid = 3, kind = KEpochField, title = ''Created'', mlength = 12, name = ''created'' \<rparr>"

text \<open>
  The strings reachable from a value: the value itself when it is a string, and what is
  reachable from the values of a mapping under keys that do not start with an underscore,
  and from the elements of a sequence.
\<close>

inductive reach :: "jv \<Rightarrow> string \<Rightarrow> bool" where
  reach_str: "reach (JStr x) x"
| reach_obj: "(k, v) \<in> set kvs \<Longrightarrow> \<not> startswith k ''_'' \<Longrightarrow> reach v x \<Longrightarrow> reach (JObj kvs) x"
| reach_list: "v \<in> set vs \<Longrightarrow> reach v x \<Longrightarrow> reach (JList vs) x"

text \<open>
  The term of the searcher is a substring of the string, which is lower-cased first
  unless the searcher is case sensitive.
\<close>

definition matches :: "(string \<Rightarrow> string) \<Rightarrow> searcher \<Rightarrow> string \<Rightarrow> bool" where
  "matches ul sr x = sublist (searchTerm sr) (if caseSensitive sr then x else lower ul x)"

text \<open>
  A row with a string and a row whose only string is under a key that starts with an
  underscore, and a Tabs object with one tab whose table holds and shows both rows.
\<close>

definition rowsMixed :: heap where
  "rowsMixed = (\<lambda>_. [])
     (0 := [(''uid'', JStr ''a'')],
      1 := [(''n'', JNum 5), (''_note'', JStr ''x'')])"

definition tabs1 :: tabsState where
  "tabs1 =
     \<lparr> tabs = [\<lparr> Data_tab = ''entities'',
                 tab_table = (Table_init [])
                   \<lparr> data := [0, 1], shownData := [0, 1], total_t := 2, shown := 2 \<rparr> \<rparr>],
       tabs_searcher = \<lparr> searchTerm = [], caseSensitive = False \<rparr>,
       refreshing = False, refreshPromise = None \<rparr>"

text \<open>The references of the promises that are pending: the aggregate refreshes in flight.\<close>

definition pendingOf :: "pstate list \<Rightarrow> nat list" where
  "pendingOf ps = filter (\<lambda>q. ps ! q = Pending) [0..<length ps]"

definition outstanding :: "world \<Rightarrow> nat list" where
  "outstanding w = pendingOf (w_promises w)"

text \<open>
  The guard: while \<^verbatim>\<open>_refreshing\<close> is set, the one promise in flight is
  \<^verbatim>\<open>_refreshPromise\<close>; while it is clear, no promise is in flight.
\<close>

definition guardInv :: "world \<Rightarrow> bool" where
  "guardInv w =
     (if refreshing (w_tabs w) then map Some (outstanding w) = [refreshPromise (w_tabs w)]
      else outstanding w = [])"

text \<open>A filter that accepts every row, for the scenarios.\<close>

definition noFilter :: "unit \<Rightarrow> obj \<Rightarrow> bool" where
  "noFilter f ob = True"

section \<open>Properties\<close>

subsection \<open>The shown subsequence\<close>

lemma processLoop_take:
  "n = length sd \<Longrightarrow>
   processLoop acc mx xs (sd, n) =
     (sd @ take (mx - n) (filter acc xs), n + length (take (mx - n) (filter acc xs)))"
proof (induction xs arbitrary: sd n)
  case Nil
  then show ?case by simp
next
  case (Cons x xs)
  show ?case
  proof (cases "n \<ge> mx")
    case True
    then show ?thesis by simp
  next
    case False
    then obtain k where k: "mx - n = Suc k" by (cases "mx - n") auto
    then have k': "mx - Suc n = k" by arith
    show ?thesis
    proof (cases "acc x")
      case True
      have "processLoop acc mx (x # xs) (sd, n) = processLoop acc mx xs (sd @ [x], n + 1)"
        using False True by simp
      also have "\<dots> = ((sd @ [x]) @ take (mx - (n + 1)) (filter acc xs),
                        (n + 1) + length (take (mx - (n + 1)) (filter acc xs)))"
        using Cons.prems by (intro Cons.IH) simp
      finally show ?thesis using True k k' by simp
    next
      case acc: False
      have "processLoop acc mx (x # xs) (sd, n) = processLoop acc mx xs (sd, n)"
        using False acc by simp
      then show ?thesis using Cons.IH [OF Cons.prems] acc by simp
    qed
  qed
qed

text \<open>
  C1. For every table state (any rows, the filter \<open>f\<close> or none) the state that
  \<^verbatim>\<open>_processData\<close> reaches before its sort pass has as \<^verbatim>\<open>_shownData\<close> the rows
  of \<^verbatim>\<open>data\<close> for which the installed filter answers true (all rows when no filter
  is set), in insertion order, cut after \<^verbatim>\<open>max_size\<close> such rows, and
  \<^verbatim>\<open>shown\<close> is its length; \<^verbatim>\<open>_processData\<close> is this derivation followed by
  the sort pass; \<^verbatim>\<open>max_size\<close> is 1000 in every table the constructor builds.
\<close>

theorem processData_shown_prefix:
  "shownData (snd (deriveShown app (h, t\<lparr> filter_t := Some f \<rparr>))) =
       take (max_size t) (filter (\<lambda>a. app f (h a)) (data t))
   \<and> shownData (snd (deriveShown app (h, t\<lparr> filter_t := None \<rparr>))) = take (max_size t) (data t)
   \<and> shown (snd (deriveShown app (h, t))) = length (shownData (snd (deriveShown app (h, t))))
   \<and> shown (snd (deriveShown app (h, t\<lparr> filter_t := Some f \<rparr>))) =
       min (max_size t) (length (filter (\<lambda>a. app f (h a)) (data t)))
   \<and> processData app (h, t) = sortData (deriveShown app (h, t))
   \<and> max_size (Table_init fs :: 'f table) = 1000"
proof -
  have a: "accepts app h (t\<lparr> filter_t := Some f \<rparr>) = (\<lambda>a. app f (h a))"
    "accepts app h (t\<lparr> filter_t := None \<rparr>) = (\<lambda>a. True)"
    by (simp_all add: accepts_def fun_eq_iff)
  show ?thesis
    by (simp add: deriveShown_def clearArray_def processLoop_take Table_init_def a
        processData_def min.commute)
qed

subsection \<open>Sorting\<close>

lemma py_eq_sym: "py_eq a b = py_eq b a"
  by (auto simp: py_eq_def)

lemma comparable_sym:
  "comparable a b = comparable b a"
  "comparable_list xs ys = comparable_list ys xs"
proof (induction a b and xs ys rule: comparable_comparable_list.induct)
  case (3 x xs y ys)
  then show ?case by (simp add: py_eq_sym [of y x])
next
  case (4 ys)
  show ?case by (cases ys) simp_all
qed auto

lemma enc_head: "\<exists>tg r s rest. enc v = (tg, r, s) # rest \<and> 1 \<le> tg"
  by (cases v) auto

lemma close_less_enc: "(0, 0, []) # r1 < enc v @ r2"
proof -
  obtain tg r s rest where e: "enc v = (tg, r, s) # rest" and t: "(1::nat) \<le> tg"
    using enc_head by blast
  have "((0::nat), (0::rat), ([]::string)) < (tg, r, s)" using t by (simp add: less_prod_def)
  then show ?thesis by (simp add: e)
qed

lemma enc_not_less_close: "\<not> enc v @ r2 < (0, 0, []) # r1"
  using close_less_enc [of r1 v r2] by (meson less_asym)

lemma append_less_cancel: "(xs :: ('a::linorder) list) @ a < xs @ b \<longleftrightarrow> a < b"
  by (induction xs) auto

lemma enc_num: "is_num a \<Longrightarrow> enc a = [(1, num_of a, [])]"
  by (cases a) auto

lemma enc_str: "is_str a \<Longrightarrow> enc a = [(2, 0, str_of a)]"
  by (cases a) auto

lemma enc_less_gen:
  "comparable a b \<Longrightarrow> enc a \<noteq> enc b \<Longrightarrow> (enc a @ r1 < enc b @ r2 \<longleftrightarrow> py_lt a b)"
  "comparable_list xs ys \<Longrightarrow> enc_list xs \<noteq> enc_list ys \<Longrightarrow>
     (enc_list xs @ (0, 0, []) # r1 < enc_list ys @ (0, 0, []) # r2 \<longleftrightarrow> py_lt_list xs ys)"
proof (induction a b and xs ys arbitrary: r1 r2 and r1 r2 rule: comparable_comparable_list.induct)
  case (1 xs ys)
  then show ?case by simp
next
  case (3 x xs y ys)
  show ?case
  proof (cases "py_eq x y")
    case True
    then have e: "enc x = enc y" by (simp add: py_eq_def)
    have ne: "enc_list xs \<noteq> enc_list ys" using "3.prems"(2) e by simp
    have c: "comparable_list xs ys" using "3.prems"(1) True by simp
    show ?thesis using "3.IH"(1) [OF True c ne] True
      by (simp add: e append_less_cancel)
  next
    case False
    then have ne: "enc x \<noteq> enc y" by (simp add: py_eq_def)
    have c: "comparable x y" using "3.prems"(1) False by simp
    show ?thesis using "3.IH"(2) [OF False c ne] False by simp
  qed
next
  case (4 ys)
  then show ?case
  proof (cases ys)
    case Nil
    then show ?thesis using 4 by simp
  next
    case (Cons y ys')
    then show ?thesis using close_less_enc by simp
  qed
next
  case (5 x xs)
  then show ?case using enc_not_less_close by simp
qed (auto simp: enc_num enc_str less_prod_def)


lemma py_lt_irrefl_gen:
  "comparable a b \<Longrightarrow> enc a @ r1 = enc b @ r2 \<Longrightarrow> \<not> py_lt a b"
  "comparable_list xs ys \<Longrightarrow> enc_list xs @ (0, 0, []) # r1 = enc_list ys @ (0, 0, []) # r2
     \<Longrightarrow> \<not> py_lt_list xs ys"
proof (induction a b and xs ys arbitrary: r1 r2 and r1 r2 rule: comparable_comparable_list.induct)
  case (1 xs ys)
  then show ?case by simp
next
  case (3 x xs y ys)
  show ?case
  proof (cases "py_eq x y")
    case True
    then have e: "enc x = enc y" by (simp add: py_eq_def)
    have c: "comparable_list xs ys" using "3.prems"(1) True by simp
    have "enc_list xs @ (0, 0, []) # r1 = enc_list ys @ (0, 0, []) # r2"
      using "3.prems"(2) e by simp
    from "3.IH"(1) [OF True c this] show ?thesis using True by simp
  next
    case False
    have c: "comparable x y" using "3.prems"(1) False by simp
    have "enc x @ (enc_list xs @ (0, 0, []) # r1) = enc y @ (enc_list ys @ (0, 0, []) # r2)"
      using "3.prems"(2) by simp
    from "3.IH"(2) [OF False c this] show ?thesis using False by simp
  qed
next
  case (4 ys)
  then show ?case
  proof (cases ys)
    case Nil
    then show ?thesis by simp
  next
    case (Cons y ys')
    have "(0, 0, []) # r1 < enc y @ (enc_list ys' @ (0, 0, []) # r2)" by (rule close_less_enc)
    then show ?thesis using "4.prems"(2) Cons by simp
  qed
next
  case (5 x xs)
  then show ?case by simp
qed (auto simp: enc_num enc_str)

lemma enc_less_iff: "comparable a b \<Longrightarrow> enc a < enc b \<longleftrightarrow> py_lt a b"
proof (cases "enc a = enc b")
  case True
  assume c: "comparable a b"
  have "\<not> py_lt a b" using py_lt_irrefl_gen(1) [OF c, of "[]" "[]"] True by simp
  then show ?thesis using True by simp
next
  case False
  assume c: "comparable a b"
  show ?thesis using enc_less_gen(1) [OF c False, of "[]" "[]"] by simp
qed

lemma enc_le_key_le: "comparable a b \<Longrightarrow> enc a \<le> enc b \<Longrightarrow> key_le a b"
  using enc_less_iff [of a b] by (auto simp: key_le_def py_eq_def le_less)

lemma key_le_enc_le: "comparable a b \<Longrightarrow> key_le a b \<Longrightarrow> enc a \<le> enc b"
  using enc_less_iff [of a b] by (auto simp: key_le_def py_eq_def le_less)

lemma sorted_wrt_sym_mset:
  assumes sym: "\<And>a b. R a b \<Longrightarrow> R b a"
  shows "mset ys = mset xs \<Longrightarrow> sorted_wrt R xs \<Longrightarrow> sorted_wrt R ys"
proof (induction ys arbitrary: xs)
  case Nil
  then show ?case by simp
next
  case (Cons y ys)
  have "y \<in> set xs" using Cons.prems(1) by (metis list.set_intros(1) mset_eq_setD)
  then obtain as bs where xs: "xs = as @ y # bs" by (meson split_list)
  have m: "mset ys = mset (as @ bs)" using Cons.prems(1) xs by simp
  have s: "sorted_wrt R (as @ bs)" using Cons.prems(2) xs by (auto simp: sorted_wrt_append)
  have tail: "sorted_wrt R ys" using Cons.IH [OF m s] .
  have "\<forall>z\<in>set (as @ bs). R y z"
    using Cons.prems(2) xs sym by (auto simp: sorted_wrt_append)
  moreover have "set ys = set (as @ bs)" using m by (rule mset_eq_setD)
  ultimately show ?case using tail by simp
qed

lemma pairwise_comparable_sorted_wrt:
  "pairwise_comparable (map key xs) = sorted_wrt (\<lambda>a b. comparable (key a) (key b)) xs"
  by (induction xs) (auto simp: list_all_iff)

lemma sortable_mset: "mset ys = mset xs \<Longrightarrow> sortable key ys = sortable key xs"
proof -
  assume m: "mset ys = mset xs"
  have len: "length ys = length xs" using m by (metis size_mset)
  have sym: "\<And>a b. comparable (key a) (key b) \<Longrightarrow> comparable (key b) (key a)"
    using comparable_sym(1) by blast
  have "sorted_wrt (\<lambda>a b. comparable (key a) (key b)) ys
      = sorted_wrt (\<lambda>a b. comparable (key a) (key b)) xs"
    using sorted_wrt_sym_mset [of "\<lambda>a b. comparable (key a) (key b)", OF sym m]
      sorted_wrt_sym_mset [of "\<lambda>a b. comparable (key a) (key b)", OF sym m [symmetric]]
    by blast
  then show ?thesis by (simp add: sortable_def len)
qed

lemma stable_sort_mset: "mset (stable_sort f rv xs) = mset xs"
  by (simp add: stable_sort_def)

lemma stable_sort_stable:
  "filter (\<lambda>y. f y = k) (stable_sort f rv xs) = filter (\<lambda>y. f y = k) xs"
  by (simp add: stable_sort_def sort_key_stable rev_filter [symmetric])

lemma stable_sort_asc: "sorted_wrt (\<lambda>a b. f a \<le> f b) (stable_sort f False xs)"
  using sorted_sort_key [of f xs] by (simp add: stable_sort_def sorted_map)

lemma stable_sort_desc: "sorted_wrt (\<lambda>a b. f b \<le> f a) (stable_sort f True xs)"
  using sorted_sort_key [of f "rev xs"]
  by (simp add: stable_sort_def sorted_map sorted_wrt_rev)

lemma py_sort_returns: "sortable key xs \<Longrightarrow> \<exists>ys. py_sort key rv xs = Inr ys"
  by (auto simp: sortable_def py_sort_def pairwise_comparable_sorted_wrt)

lemma py_sort_raises: "\<not> sortable key xs \<Longrightarrow> py_sort key rv xs = Inl TypeError"
  by (auto simp: sortable_def py_sort_def pairwise_comparable_sorted_wrt)

lemma py_sort_sortable: "py_sort key rv xs = Inr ys \<Longrightarrow> sortable key xs"
  by (auto simp: sortable_def py_sort_def pairwise_comparable_sorted_wrt split: if_splits)

lemma py_sort_cases:
  assumes "py_sort key rv xs = Inr ys"
  obtains (short) "length xs \<le> 1" "ys = xs"
    | (long) "sorted_wrt (\<lambda>a b. comparable (key a) (key b)) xs"
        "ys = stable_sort (\<lambda>x. enc (key x)) rv xs"
proof (cases "length xs \<le> 1")
  case True
  have "ys = xs" using assms True by (simp add: py_sort_def)
  with True show ?thesis by (rule short)
next
  case False
  show ?thesis
  proof (cases "pairwise_comparable (map key xs)")
    case True
    have "ys = stable_sort (\<lambda>x. enc (key x)) rv xs"
      using assms False True by (simp add: py_sort_def)
    with True show ?thesis by (intro long) (simp_all add: pairwise_comparable_sorted_wrt)
  next
    case nn: False
    have False using assms False nn by (simp add: py_sort_def)
    then show ?thesis ..
  qed
qed

lemma py_sort_mset: "py_sort key rv xs = Inr ys \<Longrightarrow> mset ys = mset xs"
  by (auto simp: py_sort_def stable_sort_mset split: if_splits)

lemma py_sort_stable:
  assumes "py_sort key rv xs = Inr ys"
  shows "rowsWithKey key k ys = rowsWithKey key k xs"
proof -
  from assms show ?thesis
  proof (cases rule: py_sort_cases)
    case short
    then show ?thesis by simp
  next
    case long
    show ?thesis
      unfolding rowsWithKey_def py_eq_def long(2)
      by (rule stable_sort_stable [of "\<lambda>x. enc (key x)" "enc k"])
  qed
qed

lemma short_sorted_wrt: "length xs \<le> 1 \<Longrightarrow> sorted_wrt P xs"
  by (cases xs) auto

lemma sorted_wrt_conj:
  "sorted_wrt P xs \<Longrightarrow> sorted_wrt Q xs \<Longrightarrow> sorted_wrt (\<lambda>a b. P a b \<and> Q a b) xs"
  by (induction xs) auto

lemma py_sort_ascending:
  assumes "py_sort key False xs = Inr ys"
  shows "ascending key ys"
proof -
  from assms show ?thesis
  proof (cases rule: py_sort_cases)
    case short
    then show ?thesis by (simp add: ascending_def short_sorted_wrt)
  next
    case long
    have m: "mset ys = mset xs" unfolding long(2) by (rule stable_sort_mset)
    have sym: "\<And>a b. comparable (key a) (key b) \<Longrightarrow> comparable (key b) (key a)"
      using comparable_sym(1) by blast
    have c: "sorted_wrt (\<lambda>a b. comparable (key a) (key b)) ys"
      using sorted_wrt_sym_mset [of "\<lambda>a b. comparable (key a) (key b)", OF sym m long(1)] .
    have o: "sorted_wrt (\<lambda>a b. enc (key a) \<le> enc (key b)) ys"
      unfolding long(2) by (rule stable_sort_asc)
    have "sorted_wrt (\<lambda>a b. comparable (key a) (key b) \<and> enc (key a) \<le> enc (key b)) ys"
      using c o by (rule sorted_wrt_conj)
    then show ?thesis
      unfolding ascending_def
      by (rule sorted_wrt_mono_rel [rotated]) (simp add: enc_le_key_le)
  qed
qed

lemma py_sort_descending:
  assumes "py_sort key True xs = Inr ys"
  shows "descending key ys"
proof -
  from assms show ?thesis
  proof (cases rule: py_sort_cases)
    case short
    then show ?thesis by (simp add: descending_def short_sorted_wrt)
  next
    case long
    have m: "mset ys = mset xs" unfolding long(2) by (rule stable_sort_mset)
    have sym: "\<And>a b. comparable (key a) (key b) \<Longrightarrow> comparable (key b) (key a)"
      using comparable_sym(1) by blast
    have c: "sorted_wrt (\<lambda>a b. comparable (key a) (key b)) ys"
      using sorted_wrt_sym_mset [of "\<lambda>a b. comparable (key a) (key b)", OF sym m long(1)] .
    have o: "sorted_wrt (\<lambda>a b. enc (key b) \<le> enc (key a)) ys"
      unfolding long(2) by (rule stable_sort_desc)
    have "sorted_wrt (\<lambda>a b. comparable (key a) (key b) \<and> enc (key b) \<le> enc (key a)) ys"
      using c o by (rule sorted_wrt_conj)
    then show ?thesis
      unfolding descending_def
      by (rule sorted_wrt_mono_rel [rotated]) (simp add: enc_le_key_le comparable_sym(1))
  qed
qed

lemma sortKey_update:
  "sortKey h (t\<lparr> reversed := r \<rparr>) = sortKey h t"
  "sortKey h (t\<lparr> sortField := sf \<rparr>) = sortKey h t"
  "sortKey h (t\<lparr> shownData := xs \<rparr>) = sortKey h t"
  "sortKey h (t\<lparr> shown := n \<rparr>) = sortKey h t"
  "sortKey h (t\<lparr> filter_t := fl \<rparr>) = sortKey h t"
  "sortKey h (t\<lparr> data := ds \<rparr>) = sortKey h t"
  "sortKey h (t\<lparr> total_t := n \<rparr>) = sortKey h t"
  by (simp_all add: sortKey_def fun_eq_iff)

lemma setSort_new:
  assumes "sortField t \<noteq> Some F"
  shows "setSort F (h, t) =
     (case py_sort (sortKey h t F) False (shownData t) of
        Inl e \<Rightarrow> Inl e
      | Inr ys \<Rightarrow> Inr (h, t\<lparr> reversed := False, sortField := Some F, shownData := ys \<rparr>))"
  using assms by (simp add: setSort_def sortData_def sortKey_update)

lemma setSort_same:
  assumes "sortField t = Some F"
  shows "setSort F (h, t) =
     (case py_sort (sortKey h t F) (\<not> reversed t) (shownData t) of
        Inl e \<Rightarrow> Inl e
      | Inr ys \<Rightarrow> Inr (h, t\<lparr> reversed := \<not> reversed t, shownData := ys \<rparr>))"
  using assms by (simp add: setSort_def sortData_def sortKey_update)

lemma setSort_scenario:
  "shownOf (andThen (setData noFilter [0, 1, 2] True (rows3, Table_init [dateField]))
      (setSort dateField)) = Inr [0, 2, 1]
   \<and> shownOf (andThen (andThen (setData noFilter [0, 1, 2] True (rows3, Table_init [dateField]))
      (setSort dateField)) (setSort dateField)) = Inr [1, 2, 0]"
  by code_simp

lemma setSort_raises:
  assumes new: "sortField t \<noteq> Some F"
    and bad: "\<not> sortable (sortKey h t F) (shownData t)"
  shows "setSort F (h, t) = Inl TypeError"
  using py_sort_raises [OF bad, of False] by (simp add: setSort_new [OF new])

lemma setSort_twice:
  assumes new: "sortField t \<noteq> Some F"
    and ok: "sortable (sortKey h t F) (shownData t)"
  shows "\<exists>t1 t2. setSort F (h, t) = Inr (h, t1) \<and> setSort F (h, t1) = Inr (h, t2)
     \<and> sortField t1 = Some F \<and> \<not> reversed t1 \<and> ascending (sortKey h t F) (shownData t1)
     \<and> sortField t2 = Some F \<and> reversed t2 \<and> descending (sortKey h t F) (shownData t2)
     \<and> mset (shownData t1) = mset (shownData t) \<and> mset (shownData t2) = mset (shownData t)
     \<and> (\<forall>k. rowsWithKey (sortKey h t F) k (shownData t1)
            = rowsWithKey (sortKey h t F) k (shownData t))
     \<and> (\<forall>k. rowsWithKey (sortKey h t F) k (shownData t2)
            = rowsWithKey (sortKey h t F) k (shownData t1))"
proof -
  let ?key = "sortKey h t F"
  from ok obtain ys where ys: "py_sort ?key False (shownData t) = Inr ys"
    using py_sort_returns by blast
  define t1 where "t1 = t\<lparr> reversed := False, sortField := Some F, shownData := ys \<rparr>"
  have s1: "setSort F (h, t) = Inr (h, t1)"
    using ys by (simp add: setSort_new [OF new] t1_def)
  have m1: "mset ys = mset (shownData t)" using ys by (rule py_sort_mset)
  have "sortable ?key ys" using ok sortable_mset [OF m1] by simp
  then obtain zs where zs: "py_sort ?key True ys = Inr zs"
    using py_sort_returns by blast
  define t2 where "t2 = t1\<lparr> reversed := True, shownData := zs \<rparr>"
  have k1: "sortKey h t1 F = ?key" by (simp add: sortKey_update t1_def)
  have f1: "sortField t1 = Some F" "\<not> reversed t1" "shownData t1 = ys"
    by (simp_all add: t1_def)
  have s2: "setSort F (h, t1) = Inr (h, t2)"
    using zs by (simp add: setSort_same [OF f1(1)] k1 f1 t2_def)
  have f2: "sortField t2 = Some F" "reversed t2" "shownData t2 = zs"
    by (simp_all add: t2_def t1_def)
  have m2: "mset zs = mset ys" using zs by (rule py_sort_mset)
  have asc: "ascending ?key ys" using ys by (rule py_sort_ascending)
  have desc: "descending ?key zs" using zs by (rule py_sort_descending)
  have st1: "\<forall>k. rowsWithKey ?key k ys = rowsWithKey ?key k (shownData t)"
    using py_sort_stable [OF ys] by blast
  have st2: "\<forall>k. rowsWithKey ?key k zs = rowsWithKey ?key k ys"
    using py_sort_stable [OF zs] by blast
  show ?thesis
    apply (rule exI [of _ t1], rule exI [of _ t2])
    using s1 s2 f1 f2 m1 m2 asc desc st1 st2 by simp
qed

text \<open>
  C2, as amended. For every table and field F that is not the current sort field: when
  the keys of the shown rows can be compared (every two of them by \<^verbatim>\<open><\<close>, or at
  most one row is shown), \<^verbatim>\<open>setSort(F)\<close> returns with ascending sort on F, and a
  second \<^verbatim>\<open>setSort(F)\<close> returns with the direction toggled to descending; both calls
  keep the shown rows and change only their order; each sort is stable with respect to
  the order the shown rows had before the call: rows with equal keys keep the relative
  order they had in the shown sequence. When two of the shown rows have keys that cannot
  be compared, \<^verbatim>\<open>setSort(F)\<close> raises TypeError. For the rows a, b, c with dates
  1, 3, 2 the first call shows a, c, b and the second b, c, a.
\<close>

theorem setSort_toggles_stably:
  assumes "sortField t \<noteq> Some F"
  shows "(sortable (sortKey h t F) (shownData t) \<longrightarrow>
     (\<exists>t1 t2. setSort F (h, t) = Inr (h, t1) \<and> setSort F (h, t1) = Inr (h, t2)
     \<and> sortField t1 = Some F \<and> \<not> reversed t1 \<and> ascending (sortKey h t F) (shownData t1)
     \<and> sortField t2 = Some F \<and> reversed t2 \<and> descending (sortKey h t F) (shownData t2)
     \<and> mset (shownData t1) = mset (shownData t) \<and> mset (shownData t2) = mset (shownData t)
     \<and> (\<forall>k. rowsWithKey (sortKey h t F) k (shownData t1)
            = rowsWithKey (sortKey h t F) k (shownData t))
     \<and> (\<forall>k. rowsWithKey (sortKey h t F) k (shownData t2)
            = rowsWithKey (sortKey h t F) k (shownData t1))))
   \<and> (\<not> sortable (sortKey h t F) (shownData t) \<longrightarrow> setSort F (h, t) = Inl TypeError)
   \<and> shownOf (andThen (setData noFilter [0, 1, 2] True (rows3, Table_init [dateField]))
        (setSort dateField)) = Inr [0, 2, 1]
   \<and> shownOf (andThen (andThen (setData noFilter [0, 1, 2] True (rows3, Table_init [dateField]))
        (setSort dateField)) (setSort dateField)) = Inr [1, 2, 0]"
  using setSort_twice [OF assms] setSort_raises [OF assms] setSort_scenario by blast

theorem setSort_toggles_stably_witness:
  "sortField table3 \<noteq> Some dateField
   \<and> sortable (sortKey rows3 table3 dateField) (shownData table3)
   \<and> (\<exists>t1 t2. setSort dateField (rows3, table3) = Inr (rows3, t1)
         \<and> setSort dateField (rows3, t1) = Inr (rows3, t2)
         \<and> sortField t1 = Some dateField \<and> \<not> reversed t1 \<and> shownData t1 = [0, 2, 1]
         \<and> sortField t2 = Some dateField \<and> reversed t2 \<and> shownData t2 = [1, 2, 0])
   \<and> \<not> sortable (sortKey undated table3 dateField) (shownData table3)
   \<and> setSort dateField (undated, table3) = Inl TypeError"
proof -
  have a: "sortField table3 \<noteq> Some dateField"
    by (simp add: table3_def Table_init_def)
  have b: "sortable (sortKey rows3 table3 dateField) (shownData table3)"
    by (simp add: sortable_def sortKey_def table3_def Table_init_def Table_getField_def
        getprop_def rows3_def dateField_def)
  have c: "\<not> sortable (sortKey undated table3 dateField) (shownData table3)"
    by (simp add: sortable_def sortKey_def table3_def Table_init_def Table_getField_def
        getprop_def undated_def dateField_def)
  note inst = setSort_toggles_stably [OF a, of rows3]
  from inst b obtain t1 t2
    where s1: "setSort dateField (rows3, table3) = Inr (rows3, t1)"
      and s2: "setSort dateField (rows3, t1) = Inr (rows3, t2)"
      and f: "sortField t1 = Some dateField" "\<not> reversed t1"
             "sortField t2 = Some dateField" "reversed t2"
    by blast
  have r: "setSort dateField (undated, table3) = Inl TypeError"
    using setSort_toggles_stably [OF a, of undated] c by blast
  have e1: "setSort dateField (rows3, table3) =
      Inr (rows3, table3\<lparr> reversed := False, sortField := Some dateField,
                           shownData := [0, 2, 1] \<rparr>)"
    by (subst setSort_new [OF a])
      (simp add: py_sort_def stable_sort_def sortKey_def table3_def
        Table_init_def Table_getField_def getprop_def rows3_def dateField_def)
  have t1: "t1 = table3\<lparr> reversed := False, sortField := Some dateField,
                          shownData := [0, 2, 1] \<rparr>"
    using s1 e1 by simp
  have e2: "setSort dateField (rows3, t1) =
      Inr (rows3, t1\<lparr> reversed := True, shownData := [1, 2, 0] \<rparr>)"
    by (subst setSort_same [OF f(1)])
      (simp add: py_sort_def stable_sort_def sortKey_def t1 table3_def
        Table_init_def Table_getField_def getprop_def rows3_def dateField_def)
  have t2: "shownData t2 = [1, 2, 0]" using s2 e2 by auto
  show ?thesis using a b c r s1 s2 f t1 t2 by auto
qed

text \<open>
  The claim as stated fails in two ways. With the relative insertion order of rows with
  equal keys: the rows 0 and 1 are inserted in this order and have the same date; sorted
  by kind and then by date they are shown in the order 1, 0. And for every table: with
  three rows whose date is \<^verbatim>\<open>None\<close>, \<^verbatim>\<open>setSort(dateField)\<close> sets no sort, it
  raises TypeError.
\<close>

theorem setSort_ties_and_keys_without_order:
  "shownOf (andThen (andThen (setData noFilter [0, 1] True (tiedRows, Table_init [dateField, kindField]))
      (setSort kindField)) (setSort dateField)) = Inr [1, 0]
   \<and> Table_getField (tiedRows 0) dateField = Table_getField (tiedRows 1) dateField
   \<and> Table_getField (undated 0) dateField = JNull
   \<and> Table_getField (undated 1) dateField = JNull
   \<and> shownOf (andThen (setData noFilter [0, 1, 2] True (undated, Table_init [dateField]))
        (setSort dateField)) = Inl TypeError"
  by code_simp


subsection \<open>Setting the data\<close>

lemma getprop_setprop_same: "getprop (setprop ob k v) k = v"
  by (simp add: getprop_def setprop_def update_conv')


lemma setDataStep_table:
  "snd (setDataStep d (h, t)) = t\<lparr> data := data t @ [d], total_t := total_t t + 1 \<rparr>"
  by (simp add: setDataStep_def)

lemma setDataLoop_table:
  "snd (setDataLoop rows (h, t)) = t\<lparr> data := data t @ rows, total_t := total_t t + length rows \<rparr>"
proof (induction rows arbitrary: h t)
  case Nil
  show ?case by simp
next
  case (Cons d ds)
  show ?case by (simp add: setDataStep_def Cons.IH)
qed

lemma setDataLoop_snoc: "setDataLoop (xs @ [x]) s = setDataStep x (setDataLoop xs s)"
  by (induction xs arbitrary: s) simp_all

lemma setDataLoop_heap_other:
  "a \<notin> set rows \<Longrightarrow> fst (setDataLoop rows (h, t)) a = h a"
proof (induction rows arbitrary: h t)
  case Nil
  show ?case by simp
next
  case (Cons d ds)
  then show ?case by (simp add: setDataStep_def)
qed

lemma setDataLoop_uid:
  assumes "distinct rows" and "i < length rows"
  shows "getprop (fst (setDataLoop rows (h, t)) (rows ! i)) ''_uid'' = JNum (int (total_t t + i))"
  using assms
proof (induction rows arbitrary: h t i)
  case Nil
  then show ?case by simp
next
  case (Cons d ds)
  show ?case
  proof (cases i)
    case 0
    have "d \<notin> set ds" using Cons.prems by simp
    then show ?thesis
      using 0 by (simp add: setDataStep_def setDataLoop_heap_other getprop_setprop_same)
  next
    case (Suc j)
    have "getprop (fst (setDataLoop ds (setDataStep d (h, t))) (ds ! j)) ''_uid''
        = JNum (int (total_t (snd (setDataStep d (h, t))) + j))"
      using Cons.prems Suc Cons.IH [of j "fst (setDataStep d (h, t))" "snd (setDataStep d (h, t))"]
      by simp
    then show ?thesis using Suc by (simp add: setDataStep_table)
  qed
qed

lemma sortData_frame:
  assumes "sortData (h, t) = Inr (h', t')"
  shows "h' = h \<and> (\<exists>xs. t' = t\<lparr> shownData := xs \<rparr> \<and> mset xs = mset (shownData t))"
proof (cases "sortField t")
  case None
  then have "t' = t\<lparr> shownData := shownData t \<rparr>" "h' = h"
    using assms by (simp_all add: sortData_def)
  then show ?thesis by blast
next
  case (Some f)
  then obtain xs where xs: "py_sort (sortKey h t f) (reversed t) (shownData t) = Inr xs"
    and r: "h' = h" "t' = t\<lparr> shownData := xs \<rparr>"
    using assms by (auto simp: sortData_def split: sum.splits)
  then show ?thesis using py_sort_mset [OF xs] by blast
qed

lemma sortData_no_field: "sortField t = None \<Longrightarrow> sortData (h, t) = Inr (h, t)"
  by (simp add: sortData_def)

lemma sortData_error: "sortData s = Inl e \<Longrightarrow> e = TypeError"
  by (cases s) (auto simp: sortData_def py_sort_def split: option.splits sum.splits if_splits)

lemma deriveShown_frame:
  "deriveShown app (h, t) =
     (h, t\<lparr> shownData := take (max_size t) (filter (accepts app h t) (data t)),
            shown := length (take (max_size t) (filter (accepts app h t) (data t))) \<rparr>)"
  by (simp add: deriveShown_def clearArray_def processLoop_take)

lemma processData_frame:
  assumes "processData app (h, t) = Inr (h', t')"
  shows "h' = h \<and> (\<exists>xs. t' = t\<lparr> shownData := xs,
            shown := length (take (max_size t) (filter (accepts app h t) (data t))) \<rparr>
          \<and> mset xs = mset (take (max_size t) (filter (accepts app h t) (data t))))"
proof -
  let ?sd = "take (max_size t) (filter (accepts app h t) (data t))"
  have "sortData (h, t\<lparr> shownData := ?sd, shown := length ?sd \<rparr>) = Inr (h', t')"
    using assms by (simp add: processData_def deriveShown_frame)
  from sortData_frame [OF this] obtain xs where
    "h' = h" "t' = t\<lparr> shownData := ?sd, shown := length ?sd, shownData := xs \<rparr>" "mset xs = mset ?sd"
    by auto
  then show ?thesis by (intro conjI exI [of _ xs]) simp_all
qed

lemma processData_no_field:
  "sortField t = None \<Longrightarrow> \<exists>s'. processData app (h, t) = Inr s'"
  by (simp add: processData_def deriveShown_frame sortData_no_field)

lemma setData_result:
  assumes "setData app rows clr (h, t) = Inr (h', t')"
  shows "h' = fst (setDataLoop rows (if clr then clear (h, t) else (h, t)))
       \<and> data t' = (if clr then [] else data t) @ rows
       \<and> total_t t' = (if clr then 0 else total_t t) + length rows
       \<and> sortField t' = sortField t \<and> filter_t t' = filter_t t \<and> max_size t' = max_size t
       \<and> selected t' = selected t \<and> reversed t' = reversed t \<and> getField t' = getField t"
proof -
  obtain h0 t0 where s0: "setDataLoop rows (if clr then clear (h, t) else (h, t)) = (h0, t0)"
    by (cases "setDataLoop rows (if clr then clear (h, t) else (h, t))")
  have t0: "t0 = snd (setDataLoop rows (if clr then clear (h, t) else (h, t)))"
    using s0 by simp
  have t0': "t0 = (if clr then t\<lparr> total_t := 0, data := [] \<rparr> else t)
      \<lparr> data := (if clr then [] else data t) @ rows,
        total_t := (if clr then 0 else total_t t) + length rows \<rparr>"
    unfolding t0 by (simp add: clear_def clearArray_def setDataLoop_table)
  have "processData app (h0, t0) = Inr (h', t')"
    using assms s0 by (simp add: setData_def)
  from processData_frame [OF this] obtain xs n where "h' = h0" "t' = t0\<lparr> shownData := xs, shown := n \<rparr>"
    by blast
  then show ?thesis using s0 t0' by (auto)
qed

lemma setData_returns:
  assumes "sortField t = None"
  shows "\<exists>s'. setData app rows clr (h, t) = Inr s'"
proof -
  obtain h0 t0 where s0: "setDataLoop rows (if clr then clear (h, t) else (h, t)) = (h0, t0)"
    by (cases "setDataLoop rows (if clr then clear (h, t) else (h, t))")
  have "t0 = snd (setDataLoop rows (if clr then clear (h, t) else (h, t)))"
    using s0 by simp
  then have "sortField t0 = None"
    using assms by (simp add: clear_def clearArray_def setDataLoop_table)
  then show ?thesis using s0 processData_no_field [of t0 app h0] by (simp add: setData_def)
qed

lemma setDataAll_snoc:
  "setDataAll app (bs @ [b]) s = andThen (setDataAll app bs s) (setData app b True)"
  by (simp add: setDataAll_def)

lemma setDataAll_sortField:
  "setDataAll app bs (h, t) = Inr (h', t') \<Longrightarrow> sortField t' = sortField t"
proof (induction bs arbitrary: h' t' rule: rev_induct)
  case Nil
  then show ?case by (simp add: setDataAll_def)
next
  case (snoc b bs)
  from snoc.prems obtain h0 t0 where a: "setDataAll app bs (h, t) = Inr (h0, t0)"
    and b: "setData app b True (h0, t0) = Inr (h', t')"
    by (auto simp: setDataAll_snoc andThen_def split: sum.splits)
  show ?case using snoc.IH [OF a] setData_result [OF b] by simp
qed

lemma setDataAll_returns:
  "sortField t = None \<Longrightarrow> \<exists>s'. setDataAll app bs (h, t) = Inr s'"
proof (induction bs rule: rev_induct)
  case Nil
  show ?case by (simp add: setDataAll_def)
next
  case (snoc b bs)
  then obtain h0 t0 where a: "setDataAll app bs (h, t) = Inr (h0, t0)" by fastforce
  have "sortField t0 = None" using setDataAll_sortField [OF a] snoc.prems by simp
  from setData_returns [OF this] obtain s' where "setData app b True (h0, t0) = Inr s'" by blast
  then show ?case using a by (simp add: setDataAll_snoc andThen_def)
qed

lemma setData_clear_ids:
  assumes "setData app rows True (h, t) = Inr (h', t')"
  shows "total_t t' = length rows \<and> data t' = rows
     \<and> (distinct rows \<longrightarrow> (\<forall>i<length rows. getprop (h' (rows ! i)) ''_uid'' = JNum (int i)))"
proof -
  have r: "h' = fst (setDataLoop rows (clear (h, t)))" "data t' = rows" "total_t t' = length rows"
    using setData_result [OF assms] by simp_all
  have "getprop (h' (rows ! i)) ''_uid'' = JNum (int i)" if "distinct rows" "i < length rows" for i
    using setDataLoop_uid [OF that, of h "t\<lparr> total_t := 0, data := [] \<rparr>"] r(1)
    by (simp add: clear_def clearArray_def)
  then show ?thesis using r by blast
qed

lemma setDataLoop_prefix_step:
  assumes "i < length rows"
  shows "setDataLoop (take (Suc i) rows) s = setDataStep (rows ! i) (setDataLoop (take i rows) s)"
  using assms by (simp add: take_Suc_conv_app_nth setDataLoop_snoc)

lemma setDataStep_uid:
  "getprop (fst (setDataStep d s) d) ''_uid'' = JNum (int (total_t (snd s)))
   \<and> total_t (snd (setDataStep d s)) = total_t (snd s) + 1
   \<and> data (snd (setDataStep d s)) = data (snd s) @ [d]"
  by (cases s) (simp add: setDataStep_def getprop_setprop_same)

text \<open>
  C8. For every sequence of \<^verbatim>\<open>_setData\<close> calls with \<^verbatim>\<open>clear=True\<close> that
  ends with the batch \<open>rows\<close>: the sequence returns when no sort field is set (with a
  sort field the sort pass may raise); when it returns, the total is the size of the last
  batch, \<^verbatim>\<open>data\<close> is that batch, and the rows of the batch (distinct objects) carry
  the ids 0, 1, 2, ... in order. More generally the i-th pass of the loop gives the
  incoming row the total of that moment as its id and then increases the total by one.
\<close>

theorem setData_clear_assigns_ids:
  "(sortField (t :: 'f table) = None \<longrightarrow> (\<exists>s'. setDataAll app (bs @ [rows]) (h, t) = Inr s'))
   \<and> (\<forall>h' t'. setDataAll app (bs @ [rows]) (h, t) = Inr (h', t') \<longrightarrow>
         total_t t' = length rows \<and> data t' = rows
         \<and> (distinct rows \<longrightarrow>
              (\<forall>i<length rows. getprop (h' (rows ! i)) ''_uid'' = JNum (int i))))
   \<and> (\<forall>i<length rows. \<forall>s :: heap \<times> 'f table.
         setDataLoop (take (Suc i) rows) s = setDataStep (rows ! i) (setDataLoop (take i rows) s)
         \<and> getprop (fst (setDataStep (rows ! i) (setDataLoop (take i rows) s)) (rows ! i)) ''_uid''
             = JNum (int (total_t (snd (setDataLoop (take i rows) s))))
         \<and> total_t (snd (setDataStep (rows ! i) (setDataLoop (take i rows) s)))
             = total_t (snd (setDataLoop (take i rows) s)) + 1)"
proof (intro conjI allI impI)
  assume "sortField t = None"
  then show "\<exists>s'. setDataAll app (bs @ [rows]) (h, t) = Inr s'" by (rule setDataAll_returns)
next
  fix h' t'
  assume a: "setDataAll app (bs @ [rows]) (h, t) = Inr (h', t')"
  then obtain h0 t0 where b: "setData app rows True (h0, t0) = Inr (h', t')"
    by (auto simp: setDataAll_snoc andThen_def split: sum.splits)
  note r = setData_clear_ids [OF b]
  show "total_t t' = length rows" using r by simp
  show "data t' = rows" using r by simp
  fix i assume "distinct rows" "i < length rows"
  then show "getprop (h' (rows ! i)) ''_uid'' = JNum (int i)" using r by simp
next
  fix i and s :: "heap \<times> 'f table" assume i: "i < length rows"
  show "setDataLoop (take (Suc i) rows) s = setDataStep (rows ! i) (setDataLoop (take i rows) s)"
    using i by (rule setDataLoop_prefix_step)
  show "getprop (fst (setDataStep (rows ! i) (setDataLoop (take i rows) s)) (rows ! i)) ''_uid''
      = JNum (int (total_t (snd (setDataLoop (take i rows) s))))"
    using setDataStep_uid by blast
  show "total_t (snd (setDataStep (rows ! i) (setDataLoop (take i rows) s)))
      = total_t (snd (setDataLoop (take i rows) s)) + 1"
    using setDataStep_uid by blast
qed

theorem setData_clear_assigns_ids_witness:
  "sortField (Table_init [dateField] :: unit table) = None
   \<and> (\<exists>h' t'. setDataAll noFilter [[0], [0, 1, 2]] (rows3, Table_init [dateField]) = Inr (h', t')
         \<and> total_t t' = 3 \<and> data t' = [0, 1, 2]
         \<and> getprop (h' 0) ''_uid'' = JNum 0 \<and> getprop (h' 1) ''_uid'' = JNum 1
         \<and> getprop (h' 2) ''_uid'' = JNum 2)"
proof -
  let ?t = "Table_init [dateField] :: unit table"
  note inst = setData_clear_assigns_ids [of ?t noFilter "[[0]]" "[0, 1, 2]" rows3]
  have n: "sortField ?t = None" by (simp add: Table_init_def)
  with inst obtain h' t' where
    r: "setDataAll noFilter [[0], [0, 1, 2]] (rows3, ?t) = Inr (h', t')"
    by fastforce
  with inst have c: "total_t t' = 3" "data t' = [0, 1, 2]"
    and u: "\<forall>i<3. getprop (h' ([0, 1, 2] ! i)) ''_uid'' = JNum (int i)"
    by simp_all
  have "getprop (h' 0) ''_uid'' = JNum 0" using u [rule_format, of 0] by simp
  moreover have "getprop (h' 1) ''_uid'' = JNum 1" using u [rule_format, of 1] by simp
  moreover have "getprop (h' 2) ''_uid'' = JNum 2" using u [rule_format, of 2] by simp
  ultimately show ?thesis using n r c by blast
qed

subsection \<open>The composite refresh\<close>

lemma accepts_filter: "filter_t t' = filter_t t \<Longrightarrow> accepts app h t' = accepts app h t"
  by (simp add: accepts_def fun_eq_iff)

lemma setData_shown:
  assumes "setData app rows clr (h, t) = Inr (h', t')"
  shows "mset (shownData t') = mset (take (max_size t) (filter (accepts app h' t) (data t')))
       \<and> shown t' = length (shownData t')
       \<and> (sortField t = None \<longrightarrow>
            shownData t' = take (max_size t) (filter (accepts app h' t) (data t')))"
proof -
  obtain h0 t0 where s0: "setDataLoop rows (if clr then clear (h, t) else (h, t)) = (h0, t0)"
    by (cases "setDataLoop rows (if clr then clear (h, t) else (h, t))")
  have t0: "t0 = (if clr then t\<lparr> total_t := 0, data := [] \<rparr> else t)
      \<lparr> data := (if clr then [] else data t) @ rows,
        total_t := (if clr then 0 else total_t t) + length rows \<rparr>"
    using s0 setDataLoop_table [of rows h "if clr then t\<lparr> total_t := 0, data := [] \<rparr> else t"]
    by (auto simp: clear_def clearArray_def split: if_splits)
  have p: "processData app (h0, t0) = Inr (h', t')"
    using assms s0 by (simp add: setData_def)
  let ?sd = "take (max_size t0) (filter (accepts app h0 t0) (data t0))"
  from processData_frame [OF p] obtain xs where
    r: "h' = h0" "t' = t0\<lparr> shownData := xs, shown := length ?sd \<rparr>" "mset xs = mset ?sd"
    by blast
  have a: "accepts app h0 t0 = accepts app h0 t" by (rule accepts_filter) (simp add: t0)
  have m: "max_size t0 = max_size t" by (simp add: t0)
  have d: "data t' = data t0" using r by simp
  have len: "length xs = length ?sd" using r(3) by (metis size_mset)
  have 1: "mset (shownData t') = mset (take (max_size t) (filter (accepts app h' t) (data t')))"
    using r a m d by simp
  have 2: "shown t' = length (shownData t')" using r len by simp
  have 3: "shownData t' = take (max_size t) (filter (accepts app h' t) (data t'))"
    if "sortField t = None"
  proof -
    have "sortField (snd (deriveShown app (h0, t0))) = None"
      using that by (simp add: deriveShown_frame t0)
    then have "processData app (h0, t0) = Inr (deriveShown app (h0, t0))"
      by (simp add: processData_def deriveShown_frame sortData_no_field)
    then have "deriveShown app (h0, t0) = (h', t')" using p by simp
    then have "t' = snd (deriveShown app (h0, t0))" by simp
    then show ?thesis using r(1) a m d by (simp add: deriveShown_frame)
  qed
  show ?thesis using 1 2 3 by blast
qed

lemma EntitiesTable_refresh_returns:
  assumes "sortField t = None"
  shows "\<exists>r. EntitiesTable_refresh app b1 b2 (h, t) = Inr r"
proof -
  have c: "sortField (snd (clear (h, t))) = None" using assms by (simp add: clear_def)
  obtain hc tc where hc: "clear (h, t) = (hc, tc)" by (cases "clear (h, t)")
  with c have "sortField tc = None" by simp
  from setData_returns [OF this] obtain s1 where
    s1: "setData app b1 False (hc, tc) = Inr s1" by blast
  obtain h1 t1 where p1: "s1 = (h1, t1)" by (cases s1)
  have "sortField t1 = None"
    using setData_result [OF s1 [unfolded p1]] \<open>sortField tc = None\<close> by simp
  from setData_returns [OF this] obtain s2 where "setData app b2 False (h1, t1) = Inr s2" by blast
  then show ?thesis using s1 p1 hc by (simp add: EntitiesTable_refresh_def)
qed

lemma EntitiesTable_refresh_result:
  assumes "EntitiesTable_refresh app b1 b2 (h, t) = Inr ((h1, t1), (h2, t2))"
  shows "total_t t2 = length b1 + length b2 \<and> data t2 = b1 @ b2
     \<and> (distinct (b1 @ b2) \<longrightarrow>
          (\<forall>i<length (b1 @ b2). getprop (h2 ((b1 @ b2) ! i)) ''_uid'' = JNum (int i)))
     \<and> total_t t1 = length b1 \<and> data t1 = b1
     \<and> mset (shownData t1) = mset (take (max_size t) (filter (accepts app h1 t) b1))
     \<and> shown t1 = length (shownData t1)
     \<and> mset (shownData t2) = mset (take (max_size t) (filter (accepts app h2 t) (b1 @ b2)))
     \<and> shown t2 = length (shownData t2)
     \<and> (sortField t = None \<longrightarrow>
          shownData t1 = take (max_size t) (filter (accepts app h1 t) b1)
          \<and> shownData t2 = take (max_size t) (filter (accepts app h2 t) (b1 @ b2)))"
proof -
  let ?tc = "t\<lparr> total_t := 0, data := [] \<rparr>"
  have c: "clear (h, t) = (h, ?tc)" by (simp add: clear_def clearArray_def)
  from assms have s1: "setData app b1 False (h, ?tc) = Inr (h1, t1)"
    and s2: "setData app b2 False (h1, t1) = Inr (h2, t2)"
    by (auto simp: EntitiesTable_refresh_def c split: sum.splits)
  note r1 = setData_result [OF s1] and r2 = setData_result [OF s2]
  note sh1 = setData_shown [OF s1] and sh2 = setData_shown [OF s2]
  have d1: "data t1 = b1" "total_t t1 = length b1" using r1 by simp_all
  have d2: "data t2 = b1 @ b2" "total_t t2 = length b1 + length b2" using r2 d1 by simp_all
  have h1: "h1 = fst (setDataLoop b1 (h, ?tc))" using r1 by simp
  have h2: "h2 = fst (setDataLoop b2 (h1, t1))" using r2 by simp
  have a1: "accepts app h1 ?tc = accepts app h1 t" by (rule accepts_filter) simp
  have a2: "accepts app h2 t1 = accepts app h2 t" by (rule accepts_filter) (simp add: r1)
  have ids: "getprop (h2 ((b1 @ b2) ! i)) ''_uid'' = JNum (int i)"
    if dist: "distinct (b1 @ b2)" and i: "i < length (b1 @ b2)" for i
  proof (cases "i < length b1")
    case True
    then have "b1 ! i \<in> set b1" by simp
    then have "b1 ! i \<notin> set b2" using dist by auto
    then have "h2 (b1 ! i) = h1 (b1 ! i)" unfolding h2 by (rule setDataLoop_heap_other)
    moreover have "getprop (h1 (b1 ! i)) ''_uid'' = JNum (int (total_t ?tc + i))"
      unfolding h1 using dist True by (intro setDataLoop_uid) simp_all
    ultimately show ?thesis using True by (simp add: nth_append)
  next
    case False
    define j where "j = i - length b1"
    have j: "j < length b2" "i = length b1 + j" using False i by (simp_all add: j_def)
    have "getprop (h2 (b2 ! j)) ''_uid'' = JNum (int (total_t t1 + j))"
      unfolding h2 using dist j by (intro setDataLoop_uid) simp_all
    then show ?thesis using j d1 by (simp add: nth_append)
  qed
  show ?thesis
    using d1 d2 ids sh1 sh2 a1 a2 r1 by (simp add: d1 d2)
qed

text \<open>
  C4, as amended. The composite refresh clears the table and then runs two non-clearing
  \<^verbatim>\<open>_setData\<close> calls in arrival order. It returns when no sort field is set. When it
  returns, the total is the sum of the two batch sizes, \<^verbatim>\<open>data\<close> holds the rows of
  both batches in arrival order, and the rows (distinct objects) carry the ids 0, 1, 2, ...
  in that order: for batches of 3 and 2 rows, total 5 and ids 0 to 4. The shown
  subsequence is derived at the end of each of the two calls: after the first batch from
  the rows of that batch, after the second from all rows.
\<close>

theorem EntitiesTable_refresh_two_batches:
  "(sortField t = None \<longrightarrow> (\<exists>r. EntitiesTable_refresh app b1 b2 (h, t) = Inr r))
   \<and> (\<forall>h1 t1 h2 t2. EntitiesTable_refresh app b1 b2 (h, t) = Inr ((h1, t1), (h2, t2)) \<longrightarrow>
       total_t t2 = length b1 + length b2 \<and> data t2 = b1 @ b2
     \<and> (distinct (b1 @ b2) \<longrightarrow>
          (\<forall>i<length (b1 @ b2). getprop (h2 ((b1 @ b2) ! i)) ''_uid'' = JNum (int i)))
     \<and> total_t t1 = length b1 \<and> data t1 = b1
     \<and> mset (shownData t1) = mset (take (max_size t) (filter (accepts app h1 t) b1))
     \<and> shown t1 = length (shownData t1)
     \<and> mset (shownData t2) = mset (take (max_size t) (filter (accepts app h2 t) (b1 @ b2)))
     \<and> shown t2 = length (shownData t2)
     \<and> (sortField t = None \<longrightarrow>
          shownData t1 = take (max_size t) (filter (accepts app h1 t) b1)
          \<and> shownData t2 = take (max_size t) (filter (accepts app h2 t) (b1 @ b2))))"
  using EntitiesTable_refresh_returns [of t app b1 b2 h]
    EntitiesTable_refresh_result [of app b1 b2 h t]
  by blast

theorem EntitiesTable_refresh_two_batches_witness:
  "sortField (Table_init [] :: unit table) = None
   \<and> (\<exists>h1 t1 h2 t2.
         EntitiesTable_refresh noFilter [0, 1, 2] [3, 4] (rows5, Table_init []) = Inr ((h1, t1), (h2, t2))
         \<and> total_t t2 = 5 \<and> data t2 = [0, 1, 2, 3, 4]
         \<and> map (\<lambda>a. getprop (h2 a) ''_uid'') [0, 1, 2, 3, 4] = [JNum 0, JNum 1, JNum 2, JNum 3, JNum 4]
         \<and> shownData t1 = [0, 1, 2] \<and> shown t1 = 3
         \<and> shownData t2 = [0, 1, 2, 3, 4] \<and> shown t2 = 5)"
proof -
  let ?t = "Table_init [] :: unit table"
  note inst = EntitiesTable_refresh_two_batches [of ?t noFilter "[0, 1, 2]" "[3, 4]" rows5]
  have n: "sortField ?t = None" by (simp add: Table_init_def)
  with inst obtain h1 t1 h2 t2 where
    r: "EntitiesTable_refresh noFilter [0, 1, 2] [3, 4] (rows5, ?t) = Inr ((h1, t1), (h2, t2))"
    by fastforce
  have acc: "accepts noFilter hh ?t = (\<lambda>a. True)" for hh
    by (simp add: accepts_def Table_init_def fun_eq_iff)
  have ms: "max_size ?t = 1000" by (simp add: Table_init_def)
  from inst r n have c: "total_t t2 = 5" "data t2 = [0, 1, 2, 3, 4]"
    and u: "\<forall>i<5. getprop (h2 ([0, 1, 2, 3, 4] ! i)) ''_uid'' = JNum (int i)"
    and s1: "shownData t1 = [0, 1, 2]" "shown t1 = length (shownData t1)"
    and s2: "shownData t2 = [0, 1, 2, 3, 4]" "shown t2 = length (shownData t2)"
    by (simp_all add: acc ms)
  have "getprop (h2 0) ''_uid'' = JNum 0" using u [rule_format, of 0] by simp
  moreover have "getprop (h2 1) ''_uid'' = JNum 1" using u [rule_format, of 1] by simp
  moreover have "getprop (h2 2) ''_uid'' = JNum 2" using u [rule_format, of 2] by simp
  moreover have "getprop (h2 3) ''_uid'' = JNum 3" using u [rule_format, of 3] by simp
  moreover have "getprop (h2 4) ''_uid'' = JNum 4" using u [rule_format, of 4] by simp
  ultimately show ?thesis using n r c s1 s2 by auto
qed

text \<open>
  The claim as stated, with the shown subsequence computed once after both batches, fails:
  on a new table the shown sequence is empty, and after the first batch of three rows,
  before the second arrives, it already holds the three rows and the shown count is 3.
\<close>

theorem EntitiesTable_refresh_shown_after_first_batch:
  "shownAfterFirst (EntitiesTable_refresh noFilter [0, 1, 2] [3, 4] (rows5, Table_init []))
     = Inr ([0, 1, 2], 3)
   \<and> shownData (Table_init [] :: unit table) = []"
  by code_simp

subsection \<open>The invariant of the table\<close>

lemma processData_inv:
  assumes "processData app (h, t) = Inr (h', t')"
  shows "set (shownData t') \<subseteq> set (data t') \<and> shown t' \<le> max_size t'
       \<and> data t' = data t \<and> selected t' = selected t \<and> max_size t' = max_size t"
proof -
  let ?sd = "take (max_size t) (filter (accepts app h t) (data t))"
  from processData_frame [OF assms] obtain xs where
    r: "t' = t\<lparr> shownData := xs, shown := length ?sd \<rparr>" "mset xs = mset ?sd"
    by blast
  have "set xs = set ?sd" using r(2) by (rule mset_eq_setD)
  moreover have "set ?sd \<subseteq> set (data t)" by (meson filter_is_subset order_trans set_take_subset)
  ultimately show ?thesis using r(1) by simp
qed

lemma setFilter_inv:
  assumes "tableInv (h, t)" and "setFilter app func (h, t) = Inr s'"
  shows "tableInv s'"
proof (cases "func = filter_t t")
  case True
  then show ?thesis using assms by (simp add: setFilter_def)
next
  case False
  obtain h' t' where s': "s' = (h', t')" by (cases s')
  have "processData app (h, t\<lparr> filter_t := func \<rparr>) = Inr (h', t')"
    using assms(2) False s' by (simp add: setFilter_def)
  from processData_inv [OF this] show ?thesis
    using assms(1) s' by (auto simp: tableInv_def split: option.splits)
qed

lemma setSort_inv:
  assumes "tableInv (h, t)" and "setSort F (h, t) = Inr s'"
  shows "tableInv s'"
proof -
  let ?t0 = "if sortField t = Some F then t\<lparr> reversed := \<not> reversed t \<rparr>
             else t\<lparr> reversed := False, sortField := Some F \<rparr>"
  obtain h' t' where s': "s' = (h', t')" by (cases s')
  have "sortData (h, ?t0) = Inr (h', t')" using assms(2) s' by (simp add: setSort_def)
  from sortData_frame [OF this] obtain xs where
    r: "t' = ?t0\<lparr> shownData := xs \<rparr>" "mset xs = mset (shownData ?t0)" by blast
  have "set xs = set (shownData t)" using mset_eq_setD [OF r(2)] by (simp split: if_splits)
  then show ?thesis using assms(1) r(1) s'
    by (auto simp: tableInv_def split: if_splits option.splits)
qed

lemma selectRow_table:
  "data (snd (selectRow pretty ob (h, t))) = data t
   \<and> shownData (snd (selectRow pretty ob (h, t))) = shownData t
   \<and> shown (snd (selectRow pretty ob (h, t))) = shown t
   \<and> max_size (snd (selectRow pretty ob (h, t))) = max_size t
   \<and> total_t (snd (selectRow pretty ob (h, t))) = total_t t
   \<and> (selected (snd (selectRow pretty ob (h, t))) = None
        \<or> selected (snd (selectRow pretty ob (h, t))) = Some ob)"
  by (simp add: selectRow_def selectNew_def Let_def split: option.splits)

lemma selectRow_inv:
  assumes "tableInv (h, t)" and "ob \<in> set (data t)"
  shows "tableInv (selectRow pretty ob (h, t))"
  using assms selectRow_table [of pretty ob h t]
  by (auto simp: tableInv_def split: option.splits)

lemma setData_inv_parts:
  assumes "setData app rows clr (h, t) = Inr (h', t')"
  shows "set (shownData t') \<subseteq> set (data t') \<and> shown t' \<le> max_size t'"
proof -
  obtain h0 t0 where s0: "setDataLoop rows (if clr then clear (h, t) else (h, t)) = (h0, t0)"
    by (cases "setDataLoop rows (if clr then clear (h, t) else (h, t))")
  have "processData app (h0, t0) = Inr (h', t')" using assms s0 by (simp add: setData_def)
  from processData_inv [OF this] show ?thesis by blast
qed

lemma setData_append_inv:
  assumes "tableInv (h, t)" and "setData app rows False (h, t) = Inr s'"
  shows "tableInv s'"
proof -
  obtain h' t' where s': "s' = (h', t')" by (cases s')
  note r = setData_result [OF assms(2) [unfolded s']]
  note p = setData_inv_parts [OF assms(2) [unfolded s']]
  show ?thesis using assms(1) r p s' by (auto simp: tableInv_def split: option.splits)
qed

lemma setData_clear_inv:
  assumes "setData app rows True (h, t) = Inr s'"
    and "case selected t of None \<Rightarrow> True | Some a \<Rightarrow> a \<in> set rows"
  shows "tableInv s'"
proof -
  obtain h' t' where s': "s' = (h', t')" by (cases s')
  note r = setData_result [OF assms(1) [unfolded s']]
  note p = setData_inv_parts [OF assms(1) [unfolded s']]
  show ?thesis using assms(2) r p s' by (auto simp: tableInv_def split: option.splits)
qed

lemma clear_shown:
  "shown (snd (clear (h, t))) = shown t \<and> max_size (snd (clear (h, t))) = max_size t
   \<and> shownData (snd (clear (h, t))) = shownData t \<and> selected (snd (clear (h, t))) = selected t
   \<and> data (snd (clear (h, t))) = [] \<and> total_t (snd (clear (h, t))) = 0"
  by (simp add: clear_def clearArray_def)

lemma setFilter_returns:
  "sortField t = None \<Longrightarrow> \<exists>s'. setFilter app func (h, t) = Inr s'"
  using processData_no_field [of "t\<lparr> filter_t := func \<rparr>" app h]
  by (simp add: setFilter_def)

lemma setData_inv_iff:
  assumes "setData app rows clr (h, t) = Inr s'"
  shows "tableInv s' \<longleftrightarrow>
     (case selected t of None \<Rightarrow> True
      | Some a \<Rightarrow> a \<in> set rows \<or> (\<not> clr \<and> a \<in> set (data t)))"
proof -
  obtain h' t' where s': "s' = (h', t')" by (cases s')
  note r = setData_result [OF assms [unfolded s']]
  note p = setData_inv_parts [OF assms [unfolded s']]
  show ?thesis using r p s' by (auto simp: tableInv_def split: option.splits)
qed

lemma clear_inv_iff:
  "tableInv (clear (h, t)) \<longleftrightarrow> shownData t = [] \<and> selected t = None \<and> shown t \<le> max_size t"
  by (auto simp: tableInv_def clear_def clearArray_def split: option.splits)

lemma clear_twice: "clear (clear s) = clear s"
  by (cases s) (simp add: clear_def clearArray_def)

lemma setData_after_clear: "setData app rows True (clear s) = setData app rows True s"
  by (simp add: setData_def clear_twice)

lemma EntitiesTable_refresh_inv:
  assumes "EntitiesTable_refresh app b1 b2 (h, t) = Inr (s1, s2)"
  shows "(tableInv s1 \<longleftrightarrow> (case selected t of None \<Rightarrow> True | Some a \<Rightarrow> a \<in> set b1))
       \<and> (tableInv s2 \<longleftrightarrow>
            (case selected t of None \<Rightarrow> True | Some a \<Rightarrow> a \<in> set b1 \<or> a \<in> set b2))"
proof -
  let ?tc = "t\<lparr> total_t := 0, data := [] \<rparr>"
  have c: "clear (h, t) = (h, ?tc)" by (simp add: clear_def clearArray_def)
  obtain h1 t1 where p1: "s1 = (h1, t1)" by (cases s1)
  from assms have a1: "setData app b1 False (h, ?tc) = Inr s1"
    and a2: "setData app b2 False (h1, t1) = Inr s2"
    by (auto simp: EntitiesTable_refresh_def c p1 split: sum.splits)
  note r1 = setData_result [OF a1 [unfolded p1]]
  have i1: "tableInv s1 \<longleftrightarrow> (case selected t of None \<Rightarrow> True | Some a \<Rightarrow> a \<in> set b1)"
    using setData_inv_iff [OF a1] by (simp split: option.splits)
  have i2: "tableInv s2 \<longleftrightarrow>
      (case selected t of None \<Rightarrow> True | Some a \<Rightarrow> a \<in> set b1 \<or> a \<in> set b2)"
    using setData_inv_iff [OF a2] r1 by (auto split: option.splits)
  show ?thesis using i1 i2 by blast
qed

text \<open>
  C3, as amended. \<^verbatim>\<open>setFilter\<close>, \<^verbatim>\<open>setSort\<close>, \<^verbatim>\<open>_setData\<close> with
  \<^verbatim>\<open>clear=False\<close> and \<^verbatim>\<open>_selectRow\<close> of a row of \<^verbatim>\<open>data\<close> preserve the
  invariant (every shown row is a row of \<^verbatim>\<open>data\<close>, the shown count is at most
  \<^verbatim>\<open>max_size\<close>, the selected row is a row of \<^verbatim>\<open>data\<close>). \<^verbatim>\<open>clear\<close>, and
  with it \<^verbatim>\<open>refresh\<close> of every class of tables up to its return, keeps the shown
  count, hence the second part, and leaves the shown rows and the selection in place
  while \<^verbatim>\<open>data\<close> becomes empty: the invariant holds afterwards exactly when no row
  was shown and none selected. \<^verbatim>\<open>_setData\<close> with either value of \<^verbatim>\<open>clear\<close>,
  hence the callbacks of the refreshes and \<^verbatim>\<open>refresh\<close> of the base class, establish
  the first two parts, and the whole invariant exactly when no row is selected or the
  selected row is among the new rows (or, with \<^verbatim>\<open>clear=False\<close>, among the rows of
  \<^verbatim>\<open>data\<close>); for the composite refresh the new rows are those of both batches.
  \<^verbatim>\<open>setFilter\<close>, \<^verbatim>\<open>_setData\<close>, the callbacks and \<^verbatim>\<open>refresh\<close> return when no
  sort field is set.
\<close>

theorem table_operations_invariant:
  "(tableInv (h, t) \<longrightarrow>
       (\<forall>s'. setFilter app func (h, t) = Inr s' \<longrightarrow> tableInv s')
     \<and> (\<forall>s'. setSort F (h, t) = Inr s' \<longrightarrow> tableInv s')
     \<and> (\<forall>s'. setData app rows False (h, t) = Inr s' \<longrightarrow> tableInv s')
     \<and> (ob \<in> set (data t) \<longrightarrow> tableInv (selectRow pretty ob (h, t)))
     \<and> shown (snd (clear (h, t))) \<le> max_size (snd (clear (h, t)))
     \<and> shown (snd (subclass_refresh (h, t))) \<le> max_size (snd (subclass_refresh (h, t))))
   \<and> (tableInv (clear (h, t))
        \<longleftrightarrow> shownData t = [] \<and> selected t = None \<and> shown t \<le> max_size t)
   \<and> (tableInv (subclass_refresh (h, t))
        \<longleftrightarrow> shownData t = [] \<and> selected t = None \<and> shown t \<le> max_size t)
   \<and> (\<forall>h' t'. setData app rows clr (h, t) = Inr (h', t') \<longrightarrow>
         set (shownData t') \<subseteq> set (data t') \<and> shown t' \<le> max_size t'
       \<and> (tableInv (h', t') \<longleftrightarrow>
            (case selected t of None \<Rightarrow> True
             | Some a \<Rightarrow> a \<in> set rows \<or> (\<not> clr \<and> a \<in> set (data t)))))
   \<and> (\<forall>h' t'. refresh app (h, t) = Inr (h', t') \<longrightarrow>
         set (shownData t') \<subseteq> set (data t') \<and> shown t' \<le> max_size t'
       \<and> (tableInv (h', t') \<longleftrightarrow> selected t = None))
   \<and> (\<forall>h' t'. subclass_refresh_then app rows (subclass_refresh (h, t)) = Inr (h', t') \<longrightarrow>
         set (shownData t') \<subseteq> set (data t') \<and> shown t' \<le> max_size t'
       \<and> (tableInv (h', t') \<longleftrightarrow>
            (case selected t of None \<Rightarrow> True | Some a \<Rightarrow> a \<in> set rows)))
   \<and> (\<forall>s1 s2. EntitiesTable_refresh app rows others (h, t) = Inr (s1, s2) \<longrightarrow>
         (tableInv s1 \<longleftrightarrow> (case selected t of None \<Rightarrow> True | Some a \<Rightarrow> a \<in> set rows))
       \<and> (tableInv s2 \<longleftrightarrow>
            (case selected t of None \<Rightarrow> True | Some a \<Rightarrow> a \<in> set rows \<or> a \<in> set others)))
   \<and> (sortField t = None \<longrightarrow>
         (\<exists>s'. setFilter app func (h, t) = Inr s')
         \<and> (\<exists>s'. setData app rows clr (h, t) = Inr s')
         \<and> (\<exists>s'. refresh app (h, t) = Inr s')
         \<and> (\<exists>s'. subclass_refresh_then app rows (subclass_refresh (h, t)) = Inr s')
         \<and> (\<exists>r. EntitiesTable_refresh app rows others (h, t) = Inr r))"
proof (intro conjI impI allI)
  fix s' assume "tableInv (h, t)" "setFilter app func (h, t) = Inr s'"
  then show "tableInv s'" by (rule setFilter_inv)
next
  fix s' assume "tableInv (h, t)" "setSort F (h, t) = Inr s'"
  then show "tableInv s'" by (rule setSort_inv)
next
  fix s' assume "tableInv (h, t)" "setData app rows False (h, t) = Inr s'"
  then show "tableInv s'" by (rule setData_append_inv)
next
  assume "tableInv (h, t)" "ob \<in> set (data t)"
  then show "tableInv (selectRow pretty ob (h, t))" by (rule selectRow_inv)
next
  assume "tableInv (h, t)"
  then show "shown (snd (clear (h, t))) \<le> max_size (snd (clear (h, t)))"
    by (simp add: clear_shown tableInv_def)
next
  assume "tableInv (h, t)"
  then show "shown (snd (subclass_refresh (h, t))) \<le> max_size (snd (subclass_refresh (h, t)))"
    by (simp add: subclass_refresh_def clear_shown tableInv_def)
next
  show "tableInv (clear (h, t))
      \<longleftrightarrow> shownData t = [] \<and> selected t = None \<and> shown t \<le> max_size t"
    by (rule clear_inv_iff)
next
  show "tableInv (subclass_refresh (h, t))
      \<longleftrightarrow> shownData t = [] \<and> selected t = None \<and> shown t \<le> max_size t"
    unfolding subclass_refresh_def by (rule clear_inv_iff)
next
  fix h' t' assume a: "setData app rows clr (h, t) = Inr (h', t')"
  show "set (shownData t') \<subseteq> set (data t')" using setData_inv_parts [OF a] by simp
  show "shown t' \<le> max_size t'" using setData_inv_parts [OF a] by simp
  show "tableInv (h', t') \<longleftrightarrow>
      (case selected t of None \<Rightarrow> True
       | Some a \<Rightarrow> a \<in> set rows \<or> (\<not> clr \<and> a \<in> set (data t)))"
    using a by (rule setData_inv_iff)
next
  fix h' t' assume a: "refresh app (h, t) = Inr (h', t')"
  show "set (shownData t') \<subseteq> set (data t')"
    using setData_inv_parts [OF a [unfolded refresh_def]] by simp
  show "shown t' \<le> max_size t'"
    using setData_inv_parts [OF a [unfolded refresh_def]] by simp
  show "tableInv (h', t') \<longleftrightarrow> selected t = None"
    using setData_inv_iff [OF a [unfolded refresh_def]] by (simp split: option.splits)
next
  fix h' t' assume "subclass_refresh_then app rows (subclass_refresh (h, t)) = Inr (h', t')"
  then have a: "setData app rows True (h, t) = Inr (h', t')"
    by (simp add: subclass_refresh_then_def subclass_refresh_def setData_after_clear)
  show "set (shownData t') \<subseteq> set (data t')" using setData_inv_parts [OF a] by simp
  show "shown t' \<le> max_size t'" using setData_inv_parts [OF a] by simp
  show "tableInv (h', t') \<longleftrightarrow> (case selected t of None \<Rightarrow> True | Some a \<Rightarrow> a \<in> set rows)"
    using setData_inv_iff [OF a] by (simp split: option.splits)
next
  fix s1 s2 assume a: "EntitiesTable_refresh app rows others (h, t) = Inr (s1, s2)"
  show "tableInv s1 \<longleftrightarrow> (case selected t of None \<Rightarrow> True | Some a \<Rightarrow> a \<in> set rows)"
    using EntitiesTable_refresh_inv [OF a] by blast
  show "tableInv s2 \<longleftrightarrow>
      (case selected t of None \<Rightarrow> True | Some a \<Rightarrow> a \<in> set rows \<or> a \<in> set others)"
    using EntitiesTable_refresh_inv [OF a] by blast
next
  assume n: "sortField t = None"
  show "\<exists>s'. setFilter app func (h, t) = Inr s'" using n by (rule setFilter_returns)
  show "\<exists>s'. setData app rows clr (h, t) = Inr s'" using n by (rule setData_returns)
  show "\<exists>s'. refresh app (h, t) = Inr s'" unfolding refresh_def using n by (rule setData_returns)
  show "\<exists>s'. subclass_refresh_then app rows (subclass_refresh (h, t)) = Inr s'"
    unfolding subclass_refresh_then_def subclass_refresh_def setData_after_clear
    using n by (rule setData_returns)
  show "\<exists>r. EntitiesTable_refresh app rows others (h, t) = Inr r"
    using n by (rule EntitiesTable_refresh_returns)
qed

theorem table_operations_invariant_witness:
  "tableInv (rows3u, table3) \<and> sortField table3 = None \<and> 1 \<in> set (data table3)
   \<and> invOf (setFilter noFilter (Some ()) (rows3u, table3)) = Inr True
   \<and> invOf (setData noFilter [3, 4] False (rows3u, table3)) = Inr True
   \<and> invOf (refresh noFilter (rows3u, table3)) = Inr True
   \<and> invOf (subclass_refresh_then noFilter [3, 4] (subclass_refresh (rows3u, table3))) = Inr True
   \<and> tableInv (selectRow keysText 1 (rows3u, table3))
   \<and> \<not> tableInv (subclass_refresh (rows3u, table3))"
proof -
  note inst = table_operations_invariant
    [where h = rows3u and t = table3 and app = noFilter and func = "Some ()" and F = dateField
       and rows = "[3, 4]" and ob = 1 and pretty = keysText and clr = False and others = "[]"]
  have i: "tableInv (rows3u, table3)" by code_simp
  have n: "sortField table3 = None" "selected table3 = None"
    by (simp_all add: table3_def Table_init_def)
  have m: "1 \<in> set (data table3)" by (simp add: table3_def)
  have sh: "shownData table3 \<noteq> []" by (simp add: table3_def)
  from inst n obtain s1 where s1: "setFilter noFilter (Some ()) (rows3u, table3) = Inr s1"
    by blast
  with inst i have "tableInv s1" by blast
  then have 1: "invOf (setFilter noFilter (Some ()) (rows3u, table3)) = Inr True"
    using s1 by (simp add: invOf_def)
  from inst n obtain s2 where s2: "setData noFilter [3, 4] False (rows3u, table3) = Inr s2"
    by blast
  with inst i have "tableInv s2" by blast
  then have 2: "invOf (setData noFilter [3, 4] False (rows3u, table3)) = Inr True"
    using s2 by (simp add: invOf_def)
  from inst n obtain h3 t3 where s3: "refresh noFilter (rows3u, table3) = Inr (h3, t3)"
    by fastforce
  with inst n have "tableInv (h3, t3)" by blast
  then have 3: "invOf (refresh noFilter (rows3u, table3)) = Inr True"
    using s3 by (simp add: invOf_def)
  have 4: "tableInv (selectRow keysText 1 (rows3u, table3))" using inst i m by blast
  from inst n obtain h5 t5 where
    s5: "subclass_refresh_then noFilter [3, 4] (subclass_refresh (rows3u, table3)) = Inr (h5, t5)"
    by fastforce
  have c5: "case selected table3 of None \<Rightarrow> True | Some a \<Rightarrow> a \<in> set [3, 4]"
    using n by simp
  from inst s5 c5 have "tableInv (h5, t5)" by blast
  then have 5: "invOf (subclass_refresh_then noFilter [3, 4] (subclass_refresh (rows3u, table3)))
      = Inr True"
    using s5 by (simp add: invOf_def)
  have 6: "\<not> tableInv (subclass_refresh (rows3u, table3))" using inst sh by blast
  show ?thesis using i n m 1 2 3 4 5 6 by blast
qed

text \<open>
  The claim as stated fails for \<^verbatim>\<open>clear\<close> and for \<^verbatim>\<open>refresh\<close> of the classes
  of tables up to its return, which leave the shown rows in place while \<^verbatim>\<open>data\<close>
  becomes empty, and for \<^verbatim>\<open>_setData\<close> with \<^verbatim>\<open>clear=True\<close>, the callback of a
  refresh and \<^verbatim>\<open>refresh\<close> of the base class, which leave the selection in place:
  with row 0 selected and no new rows, the selected row is not a row of \<^verbatim>\<open>data\<close>
  afterwards.
\<close>

theorem table_invariant_broken_by_clear:
  "tableInv (rows3, table3) \<and> \<not> tableInv (clear (rows3, table3))
   \<and> \<not> tableInv (subclass_refresh (rows3, table3))
   \<and> tableInv (rows3, table3\<lparr> selected := Some 0 \<rparr>)
   \<and> invOf (setData noFilter [] True (rows3, table3\<lparr> selected := Some 0 \<rparr>)) = Inr False
   \<and> invOf (subclass_refresh_then noFilter []
        (subclass_refresh (rows3, table3\<lparr> selected := Some 0 \<rparr>))) = Inr False
   \<and> invOf (refresh noFilter (rows3, table3\<lparr> selected := Some 0 \<rparr>)) = Inr False"
  by code_simp

subsection \<open>Selection\<close>

lemma py_eq_refl: "py_eq a a"
  by (simp add: py_eq_def)



lemma getprop_delprop_other: "k' \<noteq> k \<Longrightarrow> getprop (delprop ob k) k' = getprop ob k'"
  by (simp add: getprop_def delprop_def delete_conv')

lemma uid_delprop: "getprop (delprop ob ''_selected'') ''_uid'' = getprop ob ''_uid''"
  by (simp add: getprop_delprop_other)








lemma selectRow_same_uid:
  assumes "selected t = Some s"
    and "py_eq (getprop (h s) ''_uid'') (getprop (h ob) ''_uid'')"
  shows "selectRow pretty ob (h, t) =
     (h(s := delprop (h s) ''_selected''), t\<lparr> selected := None, detailSelected := [] \<rparr>)"
proof (cases "s = ob")
  case True
  then show ?thesis using assms(1) by (simp add: selectRow_def Let_def py_eq_refl)
next
  case False
  then show ?thesis using assms by (simp add: selectRow_def Let_def uid_delprop)
qed

lemma selectRow_same:
  assumes "selected t = Some a"
  shows "selectRow pretty a (h, t) =
     (h(a := delprop (h a) ''_selected''), t\<lparr> selected := None, detailSelected := [] \<rparr>)"
  using assms py_eq_refl by (rule selectRow_same_uid)








lemma setData_uids_differ:
  assumes "setData app rows True (h, t) = Inr (h', t')" and "distinct rows"
    and "A \<in> set rows" and "B \<in> set rows" and "A \<noteq> B"
  shows "\<not> py_eq (getprop (h' A) ''_uid'') (getprop (h' B) ''_uid'')"
proof -
  from assms(3,4) obtain i j where i: "i < length rows" "rows ! i = A"
    and j: "j < length rows" "rows ! j = B"
    by (auto simp: in_set_conv_nth)
  have "i \<noteq> j" using i j assms(5) by auto
  moreover have "getprop (h' A) ''_uid'' = JNum (int i)" "getprop (h' B) ''_uid'' = JNum (int j)"
    using setData_clear_ids [OF assms(1)] assms(2) i j by auto
  ultimately show ?thesis by (simp add: py_eq_def)
qed




subsection \<open>Cells for missing values\<close>

lemma view_None_other:
  assumes "kind f \<noteq> KEpochField"
  shows "view repr toISO f JNull =
     Inr \<lparr> attr_title = [], cell_text = [],
           attr_class = (if kind f = KFillField then Some ''fill-space'' else None) \<rparr>"
  using assms
  by (cases "kind f")
    (simp_all add: view_def Field_format_def IDField_format_def py_str_def shorten_def
      startswith_def)

text \<open>
  C9 fails for EpochField. \<^verbatim>\<open>Field.view\<close> replaces \<^verbatim>\<open>None\<close> by the empty string
  ("Better to have empty data than to cause an error") and formats it; for every class
  but EpochField the cell then renders the empty string (\<open>view_None_other\<close>).
  \<^verbatim>\<open>EpochField.format\<close> divides the empty string by 1000, which raises TypeError:
  the view of a missing value raises, for the field \<^verbatim>\<open>EpochField("Created")\<close> and
  for every EpochField.
\<close>

theorem view_None_epoch_raises:
  "view repr toISO createdField JNull = Inl TypeError
   \<and> view repr toISO (f\<lparr> kind := KEpochField \<rparr>) JNull = Inl TypeError"
  by (simp add: view_def EpochField_format_def createdField_def)

subsection \<open>Searching\<close>

inductive_simps reach_JNull: "reach JNull x"
inductive_simps reach_JBool: "reach (JBool b) x"
inductive_simps reach_JNum: "reach (JNum n) x"
inductive_simps reach_JFloat: "reach (JFloat r) x"
inductive_simps reach_JStr: "reach (JStr y) x"
inductive_simps reach_JObj: "reach (JObj kvs) x"
inductive_simps reach_JList: "reach (JList vs) x"

lemma reach_JObj_Nil: "\<not> reach (JObj []) x"
  by (simp add: reach_JObj)

lemma reach_JObj_Cons:
  "reach (JObj (kv # kvs)) x
     \<longleftrightarrow> (\<not> startswith (fst kv) ''_'' \<and> reach (snd kv) x) \<or> reach (JObj kvs) x"
  by (cases kv) (auto simp: reach_JObj)

lemma reach_JList_Nil: "\<not> reach (JList []) x"
  by (simp add: reach_JList)

lemma reach_JList_Cons:
  "reach (JList (v # vs)) x \<longleftrightarrow> reach v x \<or> reach (JList vs) x"
  by (auto simp: reach_JList)

lemma search_iff_aux:
  "(checkAny ul sr v \<longleftrightarrow> (\<exists>x. reach v x \<and> matches ul sr x))"
  "(search ul sr kvs \<longleftrightarrow> (\<exists>x. reach (JObj kvs) x \<and> matches ul sr x))"
  "(checkList ul sr vs \<longleftrightarrow> (\<exists>x. reach (JList vs) x \<and> matches ul sr x))"
proof (induction ul sr v and ul sr kvs and ul sr vs rule: checkAny_search_checkList.induct)
  case (1 ul sr kvs)
  then show ?case by simp
next
  case (2 ul sr vs)
  then show ?case by simp
next
  case (3 ul sr)
  show ?case by (simp add: checkPrimitive_def reach_JNull)
next
  case (4 ul sr b)
  show ?case by (simp add: checkPrimitive_def reach_JBool)
next
  case (5 ul sr n)
  show ?case by (simp add: checkPrimitive_def reach_JNum)
next
  case (6 ul sr r)
  show ?case by (simp add: checkPrimitive_def reach_JFloat)
next
  case (7 ul sr x)
  show ?case by (auto simp: checkPrimitive_def matches_def reach_JStr)
next
  case (8 ul sr)
  show ?case by (simp add: reach_JObj_Nil)
next
  case (9 ul sr kv kvs)
  show ?case
  proof (cases "startswith (fst kv) ''_''")
    case True
    then show ?thesis using 9(1) by (simp add: reach_JObj_Cons)
  next
    case False
    then show ?thesis using 9(2,3) by (auto simp: reach_JObj_Cons)
  qed
next
  case (10 ul sr)
  show ?case by (simp add: reach_JList_Nil)
next
  case (11 ul sr v vs)
  then show ?case by (auto simp: reach_JList_Cons)
qed

lemma setSearch_None: "setSearch ul None = \<lparr> searchTerm = [], caseSensitive = False \<rparr>"
  by (simp add: setSearch_def startswith_def endswith_def lower_def)

lemma setSearch_empty: "setSearch ul (Some []) = \<lparr> searchTerm = [], caseSensitive = False \<rparr>"
  by (simp add: setSearch_def startswith_def endswith_def lower_def)








subsection \<open>Searching all tabs\<close>

lemma matches_empty: "matches ul \<lparr> searchTerm = [], caseSensitive = cs \<rparr> x"
  by (simp add: matches_def)

lemma search_empty_term:
  "search ul \<lparr> searchTerm = [], caseSensitive = cs \<rparr> ob \<longleftrightarrow> (\<exists>x. reach (JObj ob) x)"
  by (simp add: search_iff_aux(2) matches_empty)

lemma setFilter_result:
  assumes "setFilter app func (h, t) = Inr (h', t')"
  shows "h' = h \<and> filter_t t' = func \<and> data t' = data t
       \<and> (func = filter_t t \<longrightarrow> t' = t)
       \<and> (func \<noteq> filter_t t \<longrightarrow>
            mset (shownData t') = mset (take (max_size t)
               (filter (\<lambda>a. case func of None \<Rightarrow> True | Some f \<Rightarrow> app f (h a)) (data t)))
            \<and> shown t' = length (shownData t'))"
proof (cases "func = filter_t t")
  case True
  then show ?thesis using assms by (simp add: setFilter_def)
next
  case False
  let ?t0 = "t\<lparr> filter_t := func \<rparr>"
  let ?sd = "take (max_size ?t0) (filter (accepts app h ?t0) (data ?t0))"
  have p: "processData app (h, ?t0) = Inr (h', t')"
    using assms False by (simp add: setFilter_def)
  from processData_frame [OF p] obtain xs where
    r: "h' = h" "t' = ?t0\<lparr> shownData := xs, shown := length ?sd \<rparr>" "mset xs = mset ?sd"
    by blast
  have a: "accepts app h ?t0 = (\<lambda>a. case func of None \<Rightarrow> True | Some f \<Rightarrow> app f (h a))"
    by (simp add: accepts_def fun_eq_iff)
  have len: "length xs = length ?sd" using r(3) by (metis size_mset)
  show ?thesis using False r a len by simp
qed

lemma setFilterAll_result:
  assumes "setFilterAll ul sr func h tbs = Inr (h', tbs')"
  shows "h' = h \<and> length tbs' = length tbs
       \<and> (\<forall>i<length tbs. setFilter (callFilter ul sr) func (h, tab_table (tbs ! i))
                             = Inr (h, tab_table (tbs' ! i)))"
  using assms
proof (induction tbs arbitrary: h' tbs')
  case Nil
  then show ?case by simp
next
  case (Cons tb tbs)
  from Cons.prems obtain h1 t1 h2 tbs2 where
    a: "setFilter (callFilter ul sr) func (h, tab_table tb) = Inr (h1, t1)"
    and b: "setFilterAll ul sr func h1 tbs = Inr (h2, tbs2)"
    and c: "h' = h2" "tbs' = tb\<lparr> tab_table := t1 \<rparr> # tbs2"
    by (auto split: sum.splits)
  have h1: "h1 = h" using setFilter_result [OF a] by simp
  note ih = Cons.IH [OF b [unfolded h1]]
  show ?case
  proof (intro conjI allI impI)
    show "h' = h" using c ih by simp
    show "length tbs' = length (tb # tbs)" using c ih by simp
    fix i assume "i < length (tb # tbs)"
    then show "setFilter (callFilter ul sr) func (h, tab_table ((tb # tbs) ! i))
        = Inr (h, tab_table (tbs' ! i))"
      using a h1 c ih by (cases i) simp_all
  qed
qed

lemma setFilterAll_returns:
  assumes "list_all (\<lambda>tb. sortField (tab_table tb) = None) tbs"
  shows "\<exists>r. setFilterAll ul sr func h tbs = Inr r"
  using assms
proof (induction tbs)
  case Nil
  show ?case by simp
next
  case (Cons tb tbs)
  then have n: "sortField (tab_table tb) = None" by simp
  from setFilter_returns [OF n] obtain h1 t1 where
    a: "setFilter (callFilter ul sr) func (h, tab_table tb) = Inr (h1, t1)" by fastforce
  have h1: "h1 = h" using setFilter_result [OF a] by simp
  from Cons obtain r where "setFilterAll ul sr func h tbs = Inr r" by auto
  then show ?case using a h1 by simp
qed

lemma searchAll_result:
  assumes "searchAll ul text (h, st) = Inr (h', st')"
  shows "h' = h \<and> tabs_searcher st' = setSearch ul text \<and> length (tabs st') = length (tabs st)
       \<and> (\<forall>i<length (tabs st).
             setFilter (callFilter ul (setSearch ul text)) (Some SearcherSearch) (h, tab_table (tabs st ! i))
               = Inr (h, tab_table (tabs st' ! i)))"
proof -
  from assms obtain h2 tbs2 where
    a: "setFilterAll ul (setSearch ul text) (Some SearcherSearch) h (tabs st) = Inr (h2, tbs2)"
    and b: "h' = h2" "st' = st\<lparr> tabs_searcher := setSearch ul text, tabs := tbs2 \<rparr>"
    by (auto simp: searchAll_def Let_def split: sum.splits)
  from setFilterAll_result [OF a] show ?thesis using b by simp
qed

lemma searchAll_returns:
  assumes "list_all (\<lambda>tb. sortField (tab_table tb) = None) (tabs st)"
  shows "\<exists>r. searchAll ul text (h, st) = Inr r"
proof -
  from setFilterAll_returns [OF assms] obtain r where
    "setFilterAll ul (setSearch ul text) (Some SearcherSearch) h (tabs st) = Inr r" by blast
  then show ?thesis by (simp add: searchAll_def Let_def)
qed

lemma searchAll_empty_tab:
  assumes e: "text = None \<or> text = Some []"
    and r: "searchAll ul text (h, st) = Inr (h', st')"
    and i: "i < length (tabs st)"
  shows "filter_t (tab_table (tabs st' ! i)) = Some SearcherSearch
       \<and> data (tab_table (tabs st' ! i)) = data (tab_table (tabs st ! i))
       \<and> (filter_t (tab_table (tabs st ! i)) \<noteq> Some SearcherSearch \<longrightarrow>
            mset (shownData (tab_table (tabs st' ! i)))
              = mset (take (max_size (tab_table (tabs st ! i)))
                   (filter (\<lambda>a. \<exists>x. reach (JObj (h a)) x) (data (tab_table (tabs st ! i)))))
            \<and> (\<forall>a\<in>set (shownData (tab_table (tabs st' ! i))). \<exists>x. reach (JObj (h a)) x))
       \<and> (filter_t (tab_table (tabs st ! i)) = Some SearcherSearch \<longrightarrow>
            tab_table (tabs st' ! i) = tab_table (tabs st ! i))"
proof -
  let ?t = "tab_table (tabs st ! i)" and ?t' = "tab_table (tabs st' ! i)"
  have sr: "setSearch ul text = \<lparr> searchTerm = [], caseSensitive = False \<rparr>"
    using e setSearch_None setSearch_empty by auto
  have f: "setFilter (callFilter ul (setSearch ul text)) (Some SearcherSearch) (h, ?t) = Inr (h, ?t')"
    using searchAll_result [OF r] i by simp
  note res = setFilter_result [OF f]
  have acc: "(\<lambda>a. case Some SearcherSearch of None \<Rightarrow> True
                 | Some f \<Rightarrow> callFilter ul (setSearch ul text) f (h a))
           = (\<lambda>a. \<exists>x. reach (JObj (h a)) x)"
    by (simp add: callFilter_def sr search_empty_term)
  have m: "mset (shownData ?t')
      = mset (take (max_size ?t) (filter (\<lambda>a. \<exists>x. reach (JObj (h a)) x) (data ?t)))"
    if "filter_t ?t \<noteq> Some SearcherSearch"
    using res that acc by auto
  have s: "\<forall>a\<in>set (shownData ?t'). \<exists>x. reach (JObj (h a)) x"
    if ne: "filter_t ?t \<noteq> Some SearcherSearch"
  proof
    fix a assume "a \<in> set (shownData ?t')"
    then have "a \<in> set (take (max_size ?t) (filter (\<lambda>a. \<exists>x. reach (JObj (h a)) x) (data ?t)))"
      using mset_eq_setD [OF m [OF ne]] by simp
    then have "a \<in> set (filter (\<lambda>a. \<exists>x. reach (JObj (h a)) x) (data ?t))"
      by (rule in_set_takeD)
    then show "\<exists>x. reach (JObj (h a)) x" by simp
  qed
  show ?thesis using res m s by auto
qed

text \<open>
  C10. After \<^verbatim>\<open>setSearch\<close> with a null or empty term the term is empty and the mode
  case-insensitive, and \<^verbatim>\<open>search(row)\<close> is true exactly for the rows from which some
  string is reachable under keys that do not start with an underscore.
  \<^verbatim>\<open>searchAll\<close> with an empty search box returns when no table has a sort field;
  when it returns, every table has the searcher's \<^verbatim>\<open>search\<close> as its filter (the
  filters are not cleared), and every table that did not have this filter before shows
  the first \<^verbatim>\<open>max_size\<close> rows of its data from which a string is reachable, and no
  other row; a table that already had this filter is left as it was.
\<close>

theorem searchAll_empty_installs_filter:
  "setSearch ul None = \<lparr> searchTerm = [], caseSensitive = False \<rparr>
   \<and> setSearch ul (Some []) = \<lparr> searchTerm = [], caseSensitive = False \<rparr>
   \<and> (search ul (setSearch ul None) ob \<longleftrightarrow> (\<exists>x. reach (JObj ob) x))
   \<and> (text = None \<or> text = Some [] \<longrightarrow>
        (list_all (\<lambda>tb. sortField (tab_table tb) = None) (tabs st) \<longrightarrow>
           (\<exists>r. searchAll ul text (h, st) = Inr r))
      \<and> (\<forall>h' st'. searchAll ul text (h, st) = Inr (h', st') \<longrightarrow>
            h' = h \<and> length (tabs st') = length (tabs st)
          \<and> (\<forall>i<length (tabs st).
                filter_t (tab_table (tabs st' ! i)) = Some SearcherSearch
              \<and> data (tab_table (tabs st' ! i)) = data (tab_table (tabs st ! i))
              \<and> (filter_t (tab_table (tabs st ! i)) \<noteq> Some SearcherSearch \<longrightarrow>
                   mset (shownData (tab_table (tabs st' ! i)))
                     = mset (take (max_size (tab_table (tabs st ! i)))
                          (filter (\<lambda>a. \<exists>x. reach (JObj (h a)) x) (data (tab_table (tabs st ! i)))))
                   \<and> (\<forall>a\<in>set (shownData (tab_table (tabs st' ! i))). \<exists>x. reach (JObj (h a)) x))
              \<and> (filter_t (tab_table (tabs st ! i)) = Some SearcherSearch \<longrightarrow>
                   tab_table (tabs st' ! i) = tab_table (tabs st ! i)))))"
proof (intro conjI impI allI)
  show "setSearch ul None = \<lparr> searchTerm = [], caseSensitive = False \<rparr>" by (rule setSearch_None)
  show "setSearch ul (Some []) = \<lparr> searchTerm = [], caseSensitive = False \<rparr>" by (rule setSearch_empty)
  show "search ul (setSearch ul None) ob \<longleftrightarrow> (\<exists>x. reach (JObj ob) x)"
    by (simp only: setSearch_None search_empty_term)
next
  assume "list_all (\<lambda>tb. sortField (tab_table tb) = None) (tabs st)"
  then show "\<exists>r. searchAll ul text (h, st) = Inr r" by (rule searchAll_returns)
next
  fix h' st' assume r: "searchAll ul text (h, st) = Inr (h', st')"
  show "h' = h" using searchAll_result [OF r] by simp
  show "length (tabs st') = length (tabs st)" using searchAll_result [OF r] by simp
  fix i assume e: "text = None \<or> text = Some []" and i: "i < length (tabs st)"
  note tab = searchAll_empty_tab [OF e r i]
  show "filter_t (tab_table (tabs st' ! i)) = Some SearcherSearch" using tab by simp
  show "data (tab_table (tabs st' ! i)) = data (tab_table (tabs st ! i))" using tab by simp
  {
    assume ne: "filter_t (tab_table (tabs st ! i)) \<noteq> Some SearcherSearch"
    show "mset (shownData (tab_table (tabs st' ! i)))
        = mset (take (max_size (tab_table (tabs st ! i)))
             (filter (\<lambda>a. \<exists>x. reach (JObj (h a)) x) (data (tab_table (tabs st ! i)))))"
      using tab ne by blast
    show "\<forall>a\<in>set (shownData (tab_table (tabs st' ! i))). \<exists>x. reach (JObj (h a)) x"
      using tab ne by blast
  }
  assume "filter_t (tab_table (tabs st ! i)) = Some SearcherSearch"
  then show "tab_table (tabs st' ! i) = tab_table (tabs st ! i)" using tab by blast
qed

theorem searchAll_empty_installs_filter_witness:
  "list_all (\<lambda>tb. sortField (tab_table tb) = None) (tabs tabs1)
   \<and> filter_t (tab_table (tabs tabs1 ! 0)) \<noteq> Some SearcherSearch
   \<and> (\<exists>st'. searchAll (\<lambda>s. s) None (rowsMixed, tabs1) = Inr (rowsMixed, st')
         \<and> filter_t (tab_table (tabs st' ! 0)) = Some SearcherSearch
         \<and> data (tab_table (tabs st' ! 0)) = [0, 1]
         \<and> shownData (tab_table (tabs st' ! 0)) = [0])"
proof -
  note inst = searchAll_empty_installs_filter [of "\<lambda>s. s" "rowsMixed 0" None tabs1 rowsMixed]
  note inst1 = searchAll_empty_installs_filter [of "\<lambda>s. s" "rowsMixed 1" None tabs1 rowsMixed]
  have n: "list_all (\<lambda>tb. sortField (tab_table tb) = None) (tabs tabs1)"
    by (simp add: tabs1_def Table_init_def)
  have f: "filter_t (tab_table (tabs tabs1 ! 0)) \<noteq> Some SearcherSearch"
    by (simp add: tabs1_def Table_init_def)
  have l: "(0 :: nat) < length (tabs tabs1)" by (simp add: tabs1_def)
  have "search (\<lambda>s. s) (setSearch (\<lambda>s. s) None) (rowsMixed 0)" by code_simp
  with inst have r0: "\<exists>x. reach (JObj (rowsMixed 0)) x" by blast
  have "\<not> search (\<lambda>s. s) (setSearch (\<lambda>s. s) None) (rowsMixed 1)" by code_simp
  with inst1 have r1: "\<not> (\<exists>x. reach (JObj (rowsMixed 1)) x)" by blast
  from inst n obtain h' st' where r: "searchAll (\<lambda>s. s) None (rowsMixed, tabs1) = Inr (h', st')"
    by fastforce
  with inst have h': "h' = rowsMixed" by blast
  from inst r l f have a: "filter_t (tab_table (tabs st' ! 0)) = Some SearcherSearch"
    and d: "data (tab_table (tabs st' ! 0)) = data (tab_table (tabs tabs1 ! 0))"
    and m: "mset (shownData (tab_table (tabs st' ! 0)))
        = mset (take (max_size (tab_table (tabs tabs1 ! 0)))
             (filter (\<lambda>a. \<exists>x. reach (JObj (rowsMixed a)) x) (data (tab_table (tabs tabs1 ! 0)))))"
    by blast+
  have "filter (\<lambda>a. \<exists>x. reach (JObj (rowsMixed a)) x) [0, 1] = [0]"
    using r0 r1 by simp
  then have "mset (shownData (tab_table (tabs st' ! 0))) = mset [0]"
    using m by (simp add: tabs1_def Table_init_def)
  then have s: "shownData (tab_table (tabs st' ! 0)) = [0]" by simp
  have d': "data (tab_table (tabs st' ! 0)) = [0, 1]" using d by (simp add: tabs1_def)
  show ?thesis using n f r h' a d' s by blast
qed

subsection \<open>The guard of the combined refresh\<close>

lemma pendingOf_snoc: "pendingOf (ps @ [Pending]) = pendingOf ps @ [length ps]"
proof -
  have "filter (\<lambda>q. (ps @ [Pending]) ! q = Pending) [0..<length ps]
      = filter (\<lambda>q. ps ! q = Pending) [0..<length ps]"
    by (rule filter_cong) (simp_all add: nth_append)
  then show ?thesis by (simp add: pendingOf_def)
qed

lemma pendingOf_update:
  assumes "outcome \<noteq> Pending"
  shows "pendingOf (ps[p := outcome]) = filter (\<lambda>q. q \<noteq> p) (pendingOf ps)"
proof -
  have "(ps[p := outcome] ! q = Pending) = (q \<noteq> p \<and> ps ! q = Pending)"
    if "q < length ps" for q
    using that assms by (cases "q = p") simp_all
  then have "filter (\<lambda>q. ps[p := outcome] ! q = Pending) [0..<length ps]
      = filter (\<lambda>q. q \<noteq> p \<and> ps ! q = Pending) [0..<length ps]"
    by (intro filter_cong) simp_all
  then show ?thesis by (simp add: pendingOf_def conj_commute)
qed

lemma pendingOf_mem: "q \<in> set (pendingOf ps) \<longleftrightarrow> q < length ps \<and> ps ! q = Pending"
  by (auto simp: pendingOf_def)

lemma Tabs_refresh_guarded:
  "refreshing (w_tabs w) \<Longrightarrow> Tabs_refresh w = (refreshPromise (w_tabs w), w)"
  by (simp add: Tabs_refresh_def)

lemma Tabs_refresh_fresh:
  assumes "\<not> refreshing (w_tabs w)"
  shows "fst (Tabs_refresh w) = Some (length (w_promises w))
       \<and> refreshing (w_tabs (snd (Tabs_refresh w)))
       \<and> refreshPromise (w_tabs (snd (Tabs_refresh w))) = Some (length (w_promises w))
       \<and> w_promises (snd (Tabs_refresh w)) = w_promises w @ [Pending]
       \<and> w_started (snd (Tabs_refresh w)) = w_started w + length (tabs (w_tabs w))
       \<and> length (tabs (w_tabs (snd (Tabs_refresh w)))) = length (tabs (w_tabs w))"
  using assms by (simp add: Tabs_refresh_def Let_def)

lemma guardInv_refresh:
  assumes "guardInv w"
  shows "guardInv (snd (Tabs_refresh w))"
proof (cases "refreshing (w_tabs w)")
  case True
  then show ?thesis using assms by (simp add: Tabs_refresh_guarded)
next
  case False
  then have "outstanding w = []" using assms by (simp add: guardInv_def)
  then show ?thesis
    using Tabs_refresh_fresh [OF False]
    by (simp add: guardInv_def outstanding_def pendingOf_snoc)
qed

lemma settle_result:
  "settle p outcome w = w
   \<or> (p < length (w_promises w) \<and> w_promises w ! p = Pending \<and> outcome \<noteq> Pending
      \<and> settle p outcome w =
          w\<lparr> w_promises := (w_promises w)[p := outcome],
             w_tabs := (w_tabs w)\<lparr> refreshing := False \<rparr> \<rparr>)"
  by (simp add: settle_def)

lemma guardInv_settle:
  assumes "guardInv w"
  shows "guardInv (settle p outcome w)"
proof -
  from settle_result [of p outcome w] show ?thesis
  proof
    assume "settle p outcome w = w"
    then show ?thesis using assms by simp
  next
    assume a: "p < length (w_promises w) \<and> w_promises w ! p = Pending \<and> outcome \<noteq> Pending
      \<and> settle p outcome w =
          w\<lparr> w_promises := (w_promises w)[p := outcome],
             w_tabs := (w_tabs w)\<lparr> refreshing := False \<rparr> \<rparr>"
    then have mem: "p \<in> set (outstanding w)" by (simp add: outstanding_def pendingOf_mem)
    have "outstanding w = [p]"
    proof (cases "refreshing (w_tabs w)")
      case True
      then have "map Some (outstanding w) = [refreshPromise (w_tabs w)]"
        using assms by (simp add: guardInv_def)
      then obtain q where "outstanding w = [q]" by (cases "outstanding w") auto
      then show ?thesis using mem by simp
    next
      case False
      then have "outstanding w = []" using assms by (simp add: guardInv_def)
      then show ?thesis using mem by simp
    qed
    then have "outstanding (settle p outcome w) = []"
      using a by (simp add: outstanding_def pendingOf_update)
    then show ?thesis using a by (simp add: guardInv_def)
  qed
qed

lemma guardInv_step: "guardInv w \<Longrightarrow> guardInv (step w ev)"
  by (cases ev) (simp_all add: guardInv_refresh guardInv_settle)

lemma guardInv_run: "guardInv w \<Longrightarrow> guardInv (run w evs)"
  unfolding run_def by (induction evs arbitrary: w) (simp_all add: guardInv_step)

lemma guardInv_init: "guardInv (Tabs_init h tbs)"
  by (simp add: Tabs_init_def Tabs_refresh_def Let_def guardInv_def outstanding_def pendingOf_def)

lemma guardInv_at_most_one: "guardInv w \<Longrightarrow> length (outstanding w) \<le> 1"
  by (cases "refreshing (w_tabs w)") (auto simp: guardInv_def dest: arg_cong [where f = length])

lemma in_flight_same_handle:
  assumes "guardInv w" and "p \<in> set (outstanding w)"
  shows "Tabs_refresh w = (Some p, w) \<and> refreshing (w_tabs w)"
proof -
  have r: "refreshing (w_tabs w)"
    using assms by (cases "refreshing (w_tabs w)") (auto simp: guardInv_def)
  then have "map Some (outstanding w) = [refreshPromise (w_tabs w)]"
    using assms by (simp add: guardInv_def)
  then have "refreshPromise (w_tabs w) = Some p"
    using assms(2) by (cases "outstanding w") auto
  then show ?thesis using r by (simp add: Tabs_refresh_guarded)
qed

lemma settle_then_refresh:
  assumes inv: "guardInv w" and p: "p \<in> set (outstanding w)" and o: "outcome \<noteq> Pending"
  shows "\<not> refreshing (w_tabs (settle p outcome w))
       \<and> outstanding (settle p outcome w) = []
       \<and> w_promises (settle p outcome w) ! p = outcome
       \<and> fst (Tabs_refresh (settle p outcome w)) = Some (length (w_promises w))
       \<and> fst (Tabs_refresh (settle p outcome w)) \<noteq> Some p
       \<and> outstanding (snd (Tabs_refresh (settle p outcome w))) = [length (w_promises w)]
       \<and> w_started (snd (Tabs_refresh (settle p outcome w)))
           = w_started w + length (tabs (w_tabs w))"
proof -
  have pl: "p < length (w_promises w)" "w_promises w ! p = Pending"
    using p by (simp_all add: outstanding_def pendingOf_mem)
  let ?w = "settle p outcome w"
  have s: "?w = w\<lparr> w_promises := (w_promises w)[p := outcome],
                    w_tabs := (w_tabs w)\<lparr> refreshing := False \<rparr> \<rparr>"
    using pl o by (simp add: settle_def)
  have nr: "\<not> refreshing (w_tabs ?w)" by (simp add: s)
  have "guardInv ?w" using inv by (rule guardInv_settle)
  then have e: "outstanding ?w = []" using nr by (simp add: guardInv_def)
  note f = Tabs_refresh_fresh [OF nr]
  have len: "length (w_promises ?w) = length (w_promises w)" by (simp add: s)
  have "outstanding (snd (Tabs_refresh ?w)) = [length (w_promises w)]"
    using f e len by (simp add: outstanding_def pendingOf_snoc)
  moreover have "w_promises ?w ! p = outcome" using pl by (simp add: s)
  moreover have "w_started (snd (Tabs_refresh ?w)) = w_started w + length (tabs (w_tabs w))"
    using f by (simp add: s)
  ultimately show ?thesis using nr e f len pl by simp
qed

text \<open>
  C5. Worlds are those reached from the constructor by calls of \<^verbatim>\<open>refresh\<close> and by
  aggregate promises settling; each table's refresh is taken to return its promise (a
  refresh that raises before \<^verbatim>\<open>Promise.all\<close> is reached is outside the model). In
  every such world at most one aggregate refresh is in flight, and the guard holds. In a
  world where the guard holds: a call of \<^verbatim>\<open>refresh\<close> made, after any events, while the
  promise \<open>p\<close> returned by an earlier call is still pending returns \<open>p\<close> again and
  leaves the world as it is, so it starts no table's refresh; when the pending promise
  settles, fulfilled or rejected, \<^verbatim>\<open>_refreshing\<close> is cleared and nothing is in flight,
  and the next call makes a new pending promise, different from \<open>p\<close>, and starts one
  refresh per tab.
\<close>

theorem refresh_guard:
  "guardInv (run (Tabs_init h tbs) evs)
   \<and> length (outstanding (run (Tabs_init h tbs) evs)) \<le> 1
   \<and> (guardInv w \<longrightarrow>
         length (outstanding w) \<le> 1
       \<and> guardInv (step w ev)
       \<and> (fst (Tabs_refresh w) = Some p
            \<and> p \<in> set (outstanding (run (snd (Tabs_refresh w)) evs)) \<longrightarrow>
            Tabs_refresh (run (snd (Tabs_refresh w)) evs)
              = (Some p, run (snd (Tabs_refresh w)) evs))
       \<and> (p \<in> set (outstanding w) \<longrightarrow> Tabs_refresh w = (Some p, w))
       \<and> (p \<in> set (outstanding w) \<and> outcome \<noteq> Pending \<longrightarrow>
            \<not> refreshing (w_tabs (settle p outcome w))
          \<and> outstanding (settle p outcome w) = []
          \<and> w_promises (settle p outcome w) ! p = outcome
          \<and> fst (Tabs_refresh (settle p outcome w)) = Some (length (w_promises w))
          \<and> fst (Tabs_refresh (settle p outcome w)) \<noteq> Some p
          \<and> outstanding (snd (Tabs_refresh (settle p outcome w))) = [length (w_promises w)]
          \<and> w_started (snd (Tabs_refresh (settle p outcome w)))
              = w_started w + length (tabs (w_tabs w))))"
proof (intro conjI impI)
  show i: "guardInv (run (Tabs_init h tbs) evs)"
    using guardInv_init by (rule guardInv_run)
  show "length (outstanding (run (Tabs_init h tbs) evs)) \<le> 1"
    using i by (rule guardInv_at_most_one)
next
  assume g: "guardInv w"
  show "length (outstanding w) \<le> 1" using g by (rule guardInv_at_most_one)
  show "guardInv (step w ev)" using g by (rule guardInv_step)
  {
    assume "fst (Tabs_refresh w) = Some p
      \<and> p \<in> set (outstanding (run (snd (Tabs_refresh w)) evs))"
    then have m: "p \<in> set (outstanding (run (snd (Tabs_refresh w)) evs))" by simp
    have "guardInv (run (snd (Tabs_refresh w)) evs)"
      using g by (intro guardInv_run guardInv_refresh)
    from in_flight_same_handle [OF this m]
    show "Tabs_refresh (run (snd (Tabs_refresh w)) evs)
        = (Some p, run (snd (Tabs_refresh w)) evs)"
      by simp
  }
  {
    assume "p \<in> set (outstanding w)"
    from in_flight_same_handle [OF g this] show "Tabs_refresh w = (Some p, w)" by simp
  }
  assume a: "p \<in> set (outstanding w) \<and> outcome \<noteq> Pending"
  then have m: "p \<in> set (outstanding w)" and o: "outcome \<noteq> Pending" by simp_all
  note r = settle_then_refresh [OF g m o]
  show "\<not> refreshing (w_tabs (settle p outcome w))" using r by blast
  show "outstanding (settle p outcome w) = []" using r by blast
  show "w_promises (settle p outcome w) ! p = outcome" using r by blast
  show "fst (Tabs_refresh (settle p outcome w)) = Some (length (w_promises w))" using r by blast
  show "fst (Tabs_refresh (settle p outcome w)) \<noteq> Some p" using r by blast
  show "outstanding (snd (Tabs_refresh (settle p outcome w))) = [length (w_promises w)]"
    using r by blast
  show "w_started (snd (Tabs_refresh (settle p outcome w)))
      = w_started w + length (tabs (w_tabs w))"
    using r by blast
qed

theorem refresh_guard_witness:
  "guardInv (Tabs_init rows5 (tabs tabs1))
   \<and> outstanding (Tabs_init rows5 (tabs tabs1)) = [0]
   \<and> Tabs_refresh (Tabs_init rows5 (tabs tabs1)) = (Some 0, Tabs_init rows5 (tabs tabs1))
   \<and> Tabs_refresh (run (Tabs_init rows5 (tabs tabs1)) [CallRefresh, CallRefresh])
       = (Some 0, run (Tabs_init rows5 (tabs tabs1)) [CallRefresh, CallRefresh])
   \<and> \<not> refreshing (w_tabs (settle 0 Rejected (Tabs_init rows5 (tabs tabs1))))
   \<and> \<not> refreshing (w_tabs (settle 0 Fulfilled (Tabs_init rows5 (tabs tabs1))))
   \<and> fst (Tabs_refresh (settle 0 Rejected (Tabs_init rows5 (tabs tabs1)))) = Some 1
   \<and> outstanding (snd (Tabs_refresh (settle 0 Rejected (Tabs_init rows5 (tabs tabs1))))) = [1]
   \<and> w_started (snd (Tabs_refresh (settle 0 Rejected (Tabs_init rows5 (tabs tabs1))))) = 2"
proof -
  let ?w = "Tabs_init rows5 (tabs tabs1)"
  have g: "guardInv ?w" using refresh_guard [of rows5 "tabs tabs1" "[]"] by (simp add: run_def)
  have o: "outstanding ?w = [0]"
    by (simp add: Tabs_init_def Tabs_refresh_def Let_def outstanding_def pendingOf_def)
  have l: "length (w_promises ?w) = 1" "w_started ?w = 1" "length (tabs (w_tabs ?w)) = 1"
    by (simp_all add: Tabs_init_def Tabs_refresh_def Let_def tabs1_def)
  have m: "0 \<in> set (outstanding ?w)" using o by simp
  note rej = refresh_guard [of rows5 "tabs tabs1" "[]" ?w CallRefresh 0 Rejected]
  note ful = refresh_guard [of rows5 "tabs tabs1" "[]" ?w CallRefresh 0 Fulfilled]
  from rej g m have a: "Tabs_refresh ?w = (Some 0, ?w)" by blast
  then have w2: "run ?w [CallRefresh, CallRefresh] = ?w" by (simp add: run_def)
  from rej g m have b: "\<not> refreshing (w_tabs (settle 0 Rejected ?w))"
    "fst (Tabs_refresh (settle 0 Rejected ?w)) = Some (length (w_promises ?w))"
    "outstanding (snd (Tabs_refresh (settle 0 Rejected ?w))) = [length (w_promises ?w)]"
    "w_started (snd (Tabs_refresh (settle 0 Rejected ?w)))
       = w_started ?w + length (tabs (w_tabs ?w))"
    by simp_all
  from ful g m have c: "\<not> refreshing (w_tabs (settle 0 Fulfilled ?w))" by simp
  show ?thesis using g o a w2 b c l by simp
qed

end
